theory Spec2Isabelle
  imports Complex_Main "HOL-Library.Multiset"
begin

section \<open>Randomized binary search tree: model of main.c\<close>

text \<open>
  The tree of \<^verbatim>\<open>struct TreeNode\<close> is owned hierarchically (every node has one parent and
  there are no cycles), so a pointer to a node is modelled by the subtree it points to and the
  null pointer by \<open>NULL\<close>. The fields \<^verbatim>\<open>key\<close> and \<^verbatim>\<open>size\<close> are C \<^verbatim>\<open>int\<close>s; keys are only
  compared and copied, and counters are only incremented, so both are modelled by \<open>int\<close>:
  the model describes the executions in which no counter leaves the range of \<^verbatim>\<open>int\<close>
  (signed overflow is undefined in C).
\<close>

datatype TreeNode = NULL | TreeNode int int TreeNode TreeNode

datatype RBST = RBST (root: TreeNode)

text \<open>
  Ways in which a run of the program stops without returning: \<open>Exit\<close> is the call
  \<^verbatim>\<open>exit(0)\<close> of \<^verbatim>\<open>createNode\<close>; the other three are the undefined behaviours the source
  can reach: a store or load through a null pointer, an array access outside the allocated
  block, and a load from memory that was never written.
\<close>

datatype failure = Exit | NullDeref | OutOfBounds | UninitRead

text \<open>
  The environment of the process: what the successive calls of \<^verbatim>\<open>rand()\<close>, \<^verbatim>\<open>drand48()\<close>
  and \<^verbatim>\<open>malloc\<close> will return (a stream is a function from call number to result), and the
  log of the keys of the nodes handed to \<^verbatim>\<open>free\<close>, oldest first. \<^verbatim>\<open>rand()\<close> returns a
  non-negative \<^verbatim>\<open>int\<close>, \<^verbatim>\<open>drand48()\<close> a \<^verbatim>\<open>double\<close> in \<open>[0, 1)\<close>, taken here as a
  rational; of \<^verbatim>\<open>malloc\<close> only success or failure is recorded. No stream is constrained:
  the statements below hold for all of them.
\<close>

record world =
  rand_vals :: "nat \<Rightarrow> nat"
  drand48_vals :: "nat \<Rightarrow> rat"
  malloc_oks :: "nat \<Rightarrow> bool"
  freed :: "int list"

definition rand :: "world \<Rightarrow> nat \<times> world" where
  "rand w = (rand_vals w 0, w\<lparr>rand_vals := \<lambda>i. rand_vals w (Suc i)\<rparr>)"

definition drand48 :: "world \<Rightarrow> rat \<times> world" where
  "drand48 w = (drand48_vals w 0, w\<lparr>drand48_vals := \<lambda>i. drand48_vals w (Suc i)\<rparr>)"

definition malloc :: "world \<Rightarrow> bool \<times> world" where
  "malloc w = (malloc_oks w 0, w\<lparr>malloc_oks := \<lambda>i. malloc_oks w (Suc i)\<rparr>)"

text \<open>\<^verbatim>\<open>free(p)\<close> on a node pointer: a no-op on the null pointer.\<close>

fun free_node :: "TreeNode \<Rightarrow> world \<Rightarrow> world" where
  "free_node NULL w = w"
| "free_node (TreeNode k sz l r) w = w\<lparr>freed := freed w @ [k]\<rparr>"

subsection \<open>The array of keys\<close>

text \<open>
  A block returned by \<^verbatim>\<open>malloc\<close> holds uninitialised cells; the pointer \<^verbatim>\<open>bstArr\<close> is
  \<open>None\<close> when it is null.
\<close>

datatype cell = Uninit | Val int

definition array_read :: "cell list option \<Rightarrow> int \<Rightarrow> failure + int" where
  "array_read a i =
     (case a of
        None \<Rightarrow> Inl NullDeref
      | Some cs \<Rightarrow>
          if 0 \<le> i \<and> i < int (length cs)
          then (case cs ! nat i of Uninit \<Rightarrow> Inl UninitRead | Val v \<Rightarrow> Inr v)
          else Inl OutOfBounds)"

text \<open>
  The variables that \<^verbatim>\<open>flattenRBST\<close> reaches through its pointer arguments. \<open>writes\<close> is
  instrumentation: the indices of the stores into the array, in program order.
\<close>

record flat =
  bstArr :: "cell list option"
  curIndex :: int
  newNodeIndex :: "int option"
  isAdded :: bool
  nodesVisited :: int
  writes :: "int list"

text \<open>The statement \<^verbatim>\<open>bstArr[i] = v\<close>.\<close>

definition store :: "int \<Rightarrow> int \<Rightarrow> flat \<Rightarrow> failure + flat" where
  "store i v s =
     (case bstArr s of
        None \<Rightarrow> Inl NullDeref
      | Some cs \<Rightarrow>
          if 0 \<le> i \<and> i < int (length cs)
          then Inr (s\<lparr>bstArr := Some (cs[nat i := Val v]), writes := writes s @ [i]\<rparr>)
          else Inl OutOfBounds)"

subsection \<open>createNode and initRBST\<close>

definition createNode :: "int \<Rightarrow> world \<Rightarrow> failure + (TreeNode \<times> world)" where
  "createNode k w =
     (case malloc w of
        (ok, w1) \<Rightarrow> if \<not> ok then Inl Exit else Inr (TreeNode k 1 NULL NULL, w1))"

text \<open>\<^verbatim>\<open>initRBST\<close> stores into \<^verbatim>\<open>bst->root\<close> without testing the result of \<^verbatim>\<open>malloc\<close>.\<close>

definition initRBST :: "world \<Rightarrow> failure + (RBST option \<times> world)" where
  "initRBST w =
     (case malloc w of
        (ok, w1) \<Rightarrow> if \<not> ok then Inl NullDeref else Inr (Some (RBST NULL), w1))"

subsection \<open>makeRBST\<close>

text \<open>
  \<open>add_size\<close> is one of the two conditional additions to \<^verbatim>\<open>newNode->size\<close> at the end
  of \<^verbatim>\<open>makeRBST\<close>. In the function, \<open>lst\<close>, \<open>nni\<close>, \<open>added\<close> and \<open>nv\<close> stand for the
  parameters \<^verbatim>\<open>last\<close>, \<^verbatim>\<open>newNodeIndex\<close>, \<^verbatim>\<open>isAdded\<close> and the cell that
  \<^verbatim>\<open>nodesVisited\<close> points to; the result carries the new value of that cell. The
  remainder \<^verbatim>\<open>rand() % (last - first + 1)\<close> has a non-negative dividend and a positive
  divisor, where C and HOL agree. The recursion ends because a call without \<^verbatim>\<open>isAdded\<close>
  only makes calls with it, and those shrink the range.
\<close>

fun add_size :: "int \<Rightarrow> TreeNode \<Rightarrow> int" where
  "add_size n NULL = n"
| "add_size n (TreeNode k sz l r) = n + sz"

function makeRBST ::
  "cell list option \<Rightarrow> int \<Rightarrow> int \<Rightarrow> int \<Rightarrow> bool \<Rightarrow> int \<Rightarrow> world
     \<Rightarrow> failure + (TreeNode \<times> int \<times> world)" where
  "makeRBST a first lst nni added nv w =
     (if lst < first then Inr (NULL, nv, w)
      else if \<not> added then
        (case array_read a nni of
           Inl e \<Rightarrow> Inl e
         | Inr k \<Rightarrow>
            (case createNode k w of
               Inl e \<Rightarrow> Inl e
             | Inr (newNode, w1) \<Rightarrow>
                (case makeRBST a first (nni - 1) nni True (nv + 1) w1 of
                   Inl e \<Rightarrow> Inl e
                 | Inr (l, nv2, w2) \<Rightarrow>
                    (case makeRBST a (nni + 1) lst nni True nv2 w2 of
                       Inl e \<Rightarrow> Inl e
                     | Inr (r, nv3, w3) \<Rightarrow>
                        (case newNode of
                           NULL \<Rightarrow> Inl NullDeref
                         | TreeNode nk nsz _ _ \<Rightarrow>
                             Inr (TreeNode nk (add_size (add_size nsz l) r) l r, nv3, w3))))))
      else
        (case rand w of
           (rv, w0) \<Rightarrow>
            (let index = first + int rv mod (lst - first + 1) in
             case array_read a index of
               Inl e \<Rightarrow> Inl e
             | Inr k \<Rightarrow>
                (case createNode k w0 of
                   Inl e \<Rightarrow> Inl e
                 | Inr (newNode, w1) \<Rightarrow>
                    (case makeRBST a first (index - 1) nni True (nv + 1) w1 of
                       Inl e \<Rightarrow> Inl e
                     | Inr (l, nv2, w2) \<Rightarrow>
                        (case makeRBST a (index + 1) lst nni True nv2 w2 of
                           Inl e \<Rightarrow> Inl e
                         | Inr (r, nv3, w3) \<Rightarrow>
                            (case newNode of
                               NULL \<Rightarrow> Inl NullDeref
                             | TreeNode nk nsz _ _ \<Rightarrow>
                                 Inr (TreeNode nk (add_size (add_size nsz l) r) l r,
                                      nv3, w3))))))))"
  by pat_completeness auto
termination
proof (relation "measures [\<lambda>(a, first, lst, nni, added, nv, w). if added then 0 else 1,
                           \<lambda>(a, first, lst, nni, added, nv, w). nat (lst - first + 1)]",
       goal_cases)
  case 1
  show ?case by simp
next
  case 2
  then show ?case by simp
next
  case 3
  then show ?case by simp
next
  case (4 a first lst nni added nv w rv)
  have "int rv mod (lst - first + 1) < lst - first + 1"
    using 4(1) by (intro pos_mod_bound) simp
  then show ?case using 4 by simp
next
  case (5 a first lst nni added nv w rv)
  have "0 \<le> int rv mod (lst - first + 1)"
    using 5(1) by (intro pos_mod_sign) simp
  then show ?case using 5 by simp
qed

subsection \<open>flattenRBST\<close>

text \<open>
  The block that stores the key of \<^verbatim>\<open>newNode\<close> at \<^verbatim>\<open>curIndex\<close>, records the index and
  advances; it occurs twice in \<^verbatim>\<open>flattenRBST\<close>. Only the second occurrence also sets
  \<^verbatim>\<open>isAdded\<close>, which is done by the caller below.
\<close>

definition put_new :: "TreeNode \<Rightarrow> flat \<Rightarrow> failure + flat" where
  "put_new newNode s =
     (case newNode of
        NULL \<Rightarrow> Inl NullDeref
      | TreeNode k _ _ _ \<Rightarrow>
          (case store (curIndex s) k s of
             Inl e \<Rightarrow> Inl e
           | Inr s1 \<Rightarrow>
               Inr (s1\<lparr>newNodeIndex := Some (curIndex s1), curIndex := curIndex s1 + 1\<rparr>)))"

fun flattenRBST ::
  "TreeNode \<Rightarrow> TreeNode \<Rightarrow> int \<Rightarrow> flat \<Rightarrow> world \<Rightarrow> failure + (flat \<times> world)" where
  "flattenRBST newNode NULL arrLength s w =
     (if \<not> isAdded s \<and> curIndex s = arrLength - 1
      then (case put_new newNode s of Inl e \<Rightarrow> Inl e | Inr s1 \<Rightarrow> Inr (s1, w))
      else Inr (s, w))"
| "flattenRBST newNode (TreeNode ck csz l r) arrLength s w =
     (case flattenRBST newNode l arrLength s w of
        Inl e \<Rightarrow> Inl e
      | Inr (s1, w1) \<Rightarrow>
         (case newNode of
            NULL \<Rightarrow> Inl NullDeref
          | TreeNode k _ _ _ \<Rightarrow>
             (case (if k < ck \<and> \<not> isAdded s1
                    then (case put_new newNode s1 of
                            Inl e \<Rightarrow> Inl e
                          | Inr s' \<Rightarrow> Inr (s'\<lparr>isAdded := True\<rparr>))
                    else Inr s1) of
                Inl e \<Rightarrow> Inl e
              | Inr s2 \<Rightarrow>
                 (case store (curIndex s2) ck (s2\<lparr>nodesVisited := nodesVisited s2 + 1\<rparr>) of
                    Inl e \<Rightarrow> Inl e
                  | Inr s3 \<Rightarrow>
                     (case flattenRBST newNode r arrLength
                             (s3\<lparr>curIndex := curIndex s3 + 1\<rparr>) w1 of
                        Inl e \<Rightarrow> Inl e
                      | Inr (s4, w4) \<Rightarrow> Inr (s4, free_node (TreeNode ck csz l r) w4))))))"

subsection \<open>reconstructRBST\<close>

text \<open>
  The result of \<^verbatim>\<open>malloc\<close> for the array is not tested. \<^verbatim>\<open>newNodeIndex\<close> is an
  uninitialised local until \<^verbatim>\<open>flattenRBST\<close> assigns it. A block of a non-positive number
  of bytes, when \<^verbatim>\<open>malloc\<close> grants it, has no cell.
\<close>

definition reconstructRBST ::
  "TreeNode \<Rightarrow> TreeNode \<Rightarrow> int \<Rightarrow> world \<Rightarrow> failure + (TreeNode \<times> int \<times> world)" where
  "reconstructRBST currentNode newNode nv w =
     (case currentNode of
        NULL \<Rightarrow> Inl NullDeref
      | TreeNode _ csz _ _ \<Rightarrow>
         (let arrLength = csz + 1 in
          case malloc w of
            (ok, w1) \<Rightarrow>
             (let s0 = \<lparr>bstArr = (if ok then Some (replicate (nat arrLength) Uninit) else None),
                        curIndex = 0, newNodeIndex = None, isAdded = False,
                        nodesVisited = nv, writes = []\<rparr>
              in case flattenRBST newNode currentNode arrLength s0 w1 of
                   Inl e \<Rightarrow> Inl e
                 | Inr (s1, w2) \<Rightarrow>
                    (case newNodeIndex s1 of
                       None \<Rightarrow> Inl UninitRead
                     | Some nni \<Rightarrow>
                         makeRBST (bstArr s1) 0 (arrLength - 1) nni False (nodesVisited s1)
                           (free_node newNode w2)))))"

subsection \<open>insertRBSTHelper and insertRBST\<close>

text \<open>
  The test \<^verbatim>\<open>drand48() < (1.0 / (size + 1))\<close>. The quotient is a \<^verbatim>\<open>double\<close>: for
  \<^verbatim>\<open>size + 1 == 0\<close> it is infinite and the test holds, where HOL's \<open>1 / 0\<close> is \<open>0\<close>.
  The comparison is exact here; since the stream of \<^verbatim>\<open>drand48()\<close> is arbitrary, every
  sequence of outcomes of the test is covered by some stream.
\<close>

definition rebuild_here :: "rat \<Rightarrow> int \<Rightarrow> bool" where
  "rebuild_here d sz = (if sz + 1 = 0 then True else d < 1 / of_int (sz + 1))"

fun insertRBSTHelper ::
  "TreeNode \<Rightarrow> TreeNode \<Rightarrow> int \<Rightarrow> world \<Rightarrow> failure + (TreeNode \<times> int \<times> world)" where
  "insertRBSTHelper NULL newNode nv w = Inr (newNode, nv, w)"
| "insertRBSTHelper (TreeNode ck csz l r) newNode nv w =
     (case drand48 w of
        (d, w1) \<Rightarrow>
         if rebuild_here d csz
         then reconstructRBST (TreeNode ck csz l r) newNode (nv + 1) w1
         else (case newNode of
                 NULL \<Rightarrow> Inl NullDeref
               | TreeNode k _ _ _ \<Rightarrow>
                  if k < ck
                  then (case insertRBSTHelper l newNode (nv + 1) w1 of
                          Inl e \<Rightarrow> Inl e
                        | Inr (l', nv', w') \<Rightarrow> Inr (TreeNode ck (csz + 1) l' r, nv', w'))
                  else (case insertRBSTHelper r newNode (nv + 1) w1 of
                          Inl e \<Rightarrow> Inl e
                        | Inr (r', nv', w') \<Rightarrow> Inr (TreeNode ck (csz + 1) l r', nv', w'))))"

text \<open>
  \<^verbatim>\<open>insertRBST\<close> takes a pointer to the tree handle (\<open>None\<close> when null) and updates the
  handle in place; the model returns the count and the updated handle.
\<close>

definition insertRBST ::
  "RBST option \<Rightarrow> int \<Rightarrow> world \<Rightarrow> failure + (int \<times> RBST option \<times> world)" where
  "insertRBST bst k w =
     (case createNode k w of
        Inl e \<Rightarrow> Inl e
      | Inr (newNode, w1) \<Rightarrow>
         (case bst of
            None \<Rightarrow> Inl NullDeref
          | Some b \<Rightarrow>
             if root b = NULL then Inr (1, Some (RBST newNode), w1)
             else (case insertRBSTHelper (root b) newNode 1 w1 of
                     Inl e \<Rightarrow> Inl e
                   | Inr (t, nv, w2) \<Rightarrow> Inr (nv, Some (RBST t), w2))))"

subsection \<open>freeRBST\<close>

fun freeRBSTHelper :: "TreeNode \<Rightarrow> int \<Rightarrow> world \<Rightarrow> int \<times> world" where
  "freeRBSTHelper NULL nv w = (nv, w)"
| "freeRBSTHelper (TreeNode k sz l r) nv w =
     (case freeRBSTHelper l (nv + 1) w of
        (nv1, w1) \<Rightarrow>
         (case freeRBSTHelper r nv1 w1 of
            (nv2, w2) \<Rightarrow> (nv2, free_node (TreeNode k sz l r) w2)))"

definition freeRBST :: "RBST option \<Rightarrow> world \<Rightarrow> failure + (int \<times> world)" where
  "freeRBST bst w =
     (case bst of
        None \<Rightarrow> Inl NullDeref
      | Some b \<Rightarrow> Inr (freeRBSTHelper (root b) 0 w))"

subsection \<open>The insertion loop of testInsertRBST\<close>

text \<open>
  \<^verbatim>\<open>for (i = 0; i < n; i++) nodesVisited += insertRBST(bst, keys[i]);\<close> over the list of
  the keys.
\<close>

fun insert_keys ::
  "RBST option \<Rightarrow> int list \<Rightarrow> int \<Rightarrow> world \<Rightarrow> failure + (int \<times> RBST option \<times> world)" where
  "insert_keys bst [] nv w = Inr (nv, bst, w)"
| "insert_keys bst (k # ks) nv w =
     (case insertRBST bst k w of
        Inl e \<Rightarrow> Inl e
      | Inr (n, bst', w') \<Rightarrow> insert_keys bst' ks (nv + n) w')"

section \<open>Notions used in the statements\<close>

text \<open>
  The keys of a tree in in-order and in post-order, the number of its nodes by a full
  traversal, and the size field of the node a pointer designates (0 for the null pointer).
\<close>

fun inorder :: "TreeNode \<Rightarrow> int list" where
  "inorder NULL = []"
| "inorder (TreeNode k sz l r) = inorder l @ k # inorder r"

fun postorder :: "TreeNode \<Rightarrow> int list" where
  "postorder NULL = []"
| "postorder (TreeNode k sz l r) = postorder l @ postorder r @ [k]"

fun count_nodes :: "TreeNode \<Rightarrow> nat" where
  "count_nodes NULL = 0"
| "count_nodes (TreeNode k sz l r) = 1 + count_nodes l + count_nodes r"

fun size_of :: "TreeNode \<Rightarrow> int" where
  "size_of NULL = 0"
| "size_of (TreeNode k sz l r) = sz"

text \<open>
  The size invariant: every node's \<^verbatim>\<open>size\<close> is one plus the sizes stored in its children.
\<close>

fun size_ok :: "TreeNode \<Rightarrow> bool" where
  "size_ok NULL = True"
| "size_ok (TreeNode k sz l r) = (sz = 1 + size_of l + size_of r \<and> size_ok l \<and> size_ok r)"

text \<open>
  The ordering invariant as the specification words it (left keys strictly smaller, right
  keys greater or equal), and the weaker one with equal keys allowed on the left.
\<close>

fun bst_strict :: "TreeNode \<Rightarrow> bool" where
  "bst_strict NULL = True"
| "bst_strict (TreeNode k sz l r) =
     ((\<forall>x\<in>set (inorder l). x < k) \<and> (\<forall>x\<in>set (inorder r). k \<le> x)
      \<and> bst_strict l \<and> bst_strict r)"

fun bst_weak :: "TreeNode \<Rightarrow> bool" where
  "bst_weak NULL = True"
| "bst_weak (TreeNode k sz l r) =
     ((\<forall>x\<in>set (inorder l). x \<le> k) \<and> (\<forall>x\<in>set (inorder r). k \<le> x)
      \<and> bst_weak l \<and> bst_weak r)"

text \<open>
  \<open>ins k xs\<close> puts \<open>k\<close> into \<open>xs\<close> in front of the first element greater than \<open>k\<close> (at the
  end when there is none); in a sorted list that is right after the elements less than or
  equal to \<open>k\<close>.
\<close>

definition ins :: "int \<Rightarrow> int list \<Rightarrow> int list" where
  "ins k xs = takeWhile (\<lambda>x. \<not> k < x) xs @ k # dropWhile (\<lambda>x. \<not> k < x) xs"

text \<open>
  The segment of a list between two indices, both included; empty when the second is below
  the first.
\<close>

definition slice :: "int list \<Rightarrow> int \<Rightarrow> int \<Rightarrow> int list" where
  "slice xs first lst = take (nat (lst + 1 - first)) (drop (nat first) xs)"

text \<open>
  An environment in which every \<^verbatim>\<open>malloc\<close> succeeds.
\<close>

definition allocs_ok :: "world \<Rightarrow> bool" where
  "allocs_ok w = (\<forall>i. malloc_oks w i)"

text \<open>
  Concrete environments: a stream given by its first values and the value it repeats
  afterwards. In \<open>mk_world rs ds ms\<close> the streams of \<^verbatim>\<open>rand()\<close> and \<^verbatim>\<open>drand48()\<close>
  continue with 0 and every later \<^verbatim>\<open>malloc\<close> succeeds.
\<close>

definition stream_of :: "'a list \<Rightarrow> 'a \<Rightarrow> nat \<Rightarrow> 'a" where
  "stream_of xs d i = (if i < length xs then xs ! i else d)"

definition mk_world :: "nat list \<Rightarrow> rat list \<Rightarrow> bool list \<Rightarrow> world" where
  "mk_world rs ds ms =
     \<lparr>rand_vals = stream_of rs 0, drand48_vals = stream_of ds 0,
      malloc_oks = stream_of ms True, freed = []\<rparr>"

text \<open>
  A fresh tree filled with a list of keys: \<^verbatim>\<open>initRBST\<close>, then the insertion loop, as
  \<^verbatim>\<open>testInsertRBST\<close> runs them.
\<close>

definition build :: "int list \<Rightarrow> world \<Rightarrow> failure + (int \<times> RBST option \<times> world)" where
  "build ks w =
     (case initRBST w of
        Inl e \<Rightarrow> Inl e
      | Inr (bst, w1) \<Rightarrow> insert_keys bst ks 0 w1)"


definition result_count :: "failure + (int \<times> RBST option \<times> world) \<Rightarrow> int option" where
  "result_count res = (case res of Inl e \<Rightarrow> None | Inr (n, bst, w) \<Rightarrow> Some n)"

text \<open>
  The variables of \<^verbatim>\<open>reconstructRBST\<close> at its call of \<^verbatim>\<open>flattenRBST\<close>, when
  \<^verbatim>\<open>malloc\<close> has returned a block for the array.
\<close>

definition flat_init :: "int \<Rightarrow> int \<Rightarrow> flat" where
  "flat_init arrLength nv =
     \<lparr>bstArr = Some (replicate (nat arrLength) Uninit), curIndex = 0, newNodeIndex = None,
      isAdded = False, nodesVisited = nv, writes = []\<rparr>"

text \<open>
  The work of one \<^verbatim>\<open>insertRBSTHelper\<close> call, told from the tree, the key and the values
  \<^verbatim>\<open>drand48()\<close> will return: the number of nodes the call descends through (the node where
  a rebuild starts included), and, when a rebuild starts at some subtree, the number of its
  nodes (those flattened) and that number plus one (those rebuilt); both are 0 when no
  rebuild starts.
\<close>

fun descended :: "TreeNode \<Rightarrow> int \<Rightarrow> (nat \<Rightarrow> rat) \<Rightarrow> int" where
  "descended NULL k ds = 0"
| "descended (TreeNode ck csz l r) k ds =
     1 + (if rebuild_here (ds 0) csz then 0
          else descended (if k < ck then l else r) k (\<lambda>i. ds (Suc i)))"

fun flattened :: "TreeNode \<Rightarrow> int \<Rightarrow> (nat \<Rightarrow> rat) \<Rightarrow> int" where
  "flattened NULL k ds = 0"
| "flattened (TreeNode ck csz l r) k ds =
     (if rebuild_here (ds 0) csz then int (length (inorder (TreeNode ck csz l r)))
      else flattened (if k < ck then l else r) k (\<lambda>i. ds (Suc i)))"

fun rebuilt :: "TreeNode \<Rightarrow> int \<Rightarrow> (nat \<Rightarrow> rat) \<Rightarrow> int" where
  "rebuilt NULL k ds = 0"
| "rebuilt (TreeNode ck csz l r) k ds =
     (if rebuild_here (ds 0) csz then int (length (inorder (TreeNode ck csz l r))) + 1
      else rebuilt (if k < ck then l else r) k (\<lambda>i. ds (Suc i)))"


section \<open>Flattening as a run over the key list\<close>

text \<open>
  An in-order traversal visits null pointers and nodes in turn. \<open>leaf_step\<close> is what
  \<^verbatim>\<open>flattenRBST\<close> does at a null pointer and \<open>node_step\<close> what it does at a node between
  its two recursive calls; \<open>run_keys\<close> alternates them along a list of keys. Lemma
  \<open>flattenRBST_run\<close> below shows that \<^verbatim>\<open>flattenRBST\<close> on a tree is a \<open>leaf_step\<close>
  followed by \<open>run_keys\<close> on the in-order keys of the tree.
\<close>

definition leaf_step :: "TreeNode \<Rightarrow> int \<Rightarrow> flat \<Rightarrow> failure + flat" where
  "leaf_step newNode arrLength s =
     (if \<not> isAdded s \<and> curIndex s = arrLength - 1 then put_new newNode s else Inr s)"

definition node_step :: "TreeNode \<Rightarrow> int \<Rightarrow> flat \<Rightarrow> failure + flat" where
  "node_step newNode ck s =
     (case newNode of
        NULL \<Rightarrow> Inl NullDeref
      | TreeNode k _ _ _ \<Rightarrow>
         (case (if k < ck \<and> \<not> isAdded s
                then (case put_new newNode s of
                        Inl e \<Rightarrow> Inl e
                      | Inr s' \<Rightarrow> Inr (s'\<lparr>isAdded := True\<rparr>))
                else Inr s) of
            Inl e \<Rightarrow> Inl e
          | Inr s2 \<Rightarrow>
             (case store (curIndex s2) ck (s2\<lparr>nodesVisited := nodesVisited s2 + 1\<rparr>) of
                Inl e \<Rightarrow> Inl e
              | Inr s3 \<Rightarrow> Inr (s3\<lparr>curIndex := curIndex s3 + 1\<rparr>))))"

fun run_keys :: "TreeNode \<Rightarrow> int \<Rightarrow> int list \<Rightarrow> flat \<Rightarrow> failure + flat" where
  "run_keys newNode arrLength [] s = Inr s"
| "run_keys newNode arrLength (x # xs) s =
     (case node_step newNode x s of
        Inl e \<Rightarrow> Inl e
      | Inr s1 \<Rightarrow>
         (case leaf_step newNode arrLength s1 of
            Inl e \<Rightarrow> Inl e
          | Inr s2 \<Rightarrow> run_keys newNode arrLength xs s2))"

text \<open>
  The effect of the steps when no access fails: \<open>push\<close> stores a value at \<^verbatim>\<open>curIndex\<close> and
  advances, \<open>visit\<close> is the step at a node that does not place the new key, \<open>put\<close> places
  the new key. \<open>room s m\<close> says that \<open>m\<close> more cells fit into the array, \<open>filled s vs\<close> that
  the array starts with the values \<open>vs\<close>, stored at \<open>0, 1, \<dots>\<close> in this order, with
  \<^verbatim>\<open>curIndex\<close> behind them.
\<close>

definition push :: "int \<Rightarrow> flat \<Rightarrow> flat" where
  "push v s = s\<lparr>bstArr := map_option (\<lambda>cs. cs[nat (curIndex s) := Val v]) (bstArr s),
               writes := writes s @ [curIndex s],
               curIndex := curIndex s + 1\<rparr>"

definition visit :: "int \<Rightarrow> flat \<Rightarrow> flat" where
  "visit x s = push x (s\<lparr>nodesVisited := nodesVisited s + 1\<rparr>)"

definition put :: "int \<Rightarrow> flat \<Rightarrow> flat" where
  "put k s = (push k s)\<lparr>newNodeIndex := Some (curIndex s)\<rparr>"

definition room :: "flat \<Rightarrow> nat \<Rightarrow> bool" where
  "room s m = (0 \<le> curIndex s \<and> (\<exists>cs. bstArr s = Some cs \<and> nat (curIndex s) + m \<le> length cs))"

definition filled :: "flat \<Rightarrow> int list \<Rightarrow> bool" where
  "filled s vs =
     ((case bstArr s of None \<Rightarrow> False | Some cs \<Rightarrow> take (length vs) cs = map Val vs)
      \<and> curIndex s = int (length vs) \<and> writes s = map int [0..<length vs])"

definition arr_len :: "flat \<Rightarrow> nat option" where
  "arr_len s = map_option length (bstArr s)"

section \<open>Postconditions\<close>

text \<open>
  What the results of \<^verbatim>\<open>makeRBST\<close> (with \<^verbatim>\<open>isAdded\<close> set), \<^verbatim>\<open>insertRBSTHelper\<close>,
  \<^verbatim>\<open>insertRBST\<close> and the insertion loop satisfy. A run fails only by \<^verbatim>\<open>exit\<close> or by a
  store through a null array pointer, and only when some \<^verbatim>\<open>malloc\<close> fails.
\<close>

definition made ::
  "int list \<Rightarrow> int \<Rightarrow> int \<Rightarrow> int \<Rightarrow> world \<Rightarrow> failure + (TreeNode \<times> int \<times> world) \<Rightarrow> bool" where
  "made xs first lst nv w res =
     (case res of
        Inl e \<Rightarrow> e = Exit \<and> \<not> allocs_ok w
      | Inr (t, nv', w') \<Rightarrow>
          inorder t = slice xs first lst \<and> size_ok t \<and> nv' = nv + int (length (inorder t))
          \<and> freed w' = freed w \<and> (allocs_ok w \<longrightarrow> allocs_ok w'))"

definition inserted ::
  "TreeNode \<Rightarrow> int \<Rightarrow> int \<Rightarrow> world \<Rightarrow> failure + (TreeNode \<times> int \<times> world) \<Rightarrow> bool" where
  "inserted t k nv w res =
     (case res of
        Inl e \<Rightarrow> (e = Exit \<or> e = NullDeref) \<and> \<not> allocs_ok w
      | Inr (t', nv', w') \<Rightarrow>
          size_ok t' \<and> mset (inorder t') = add_mset k (mset (inorder t))
          \<and> (sorted (inorder t) \<longrightarrow> inorder t' = ins k (inorder t))
          \<and> nv' = nv + descended t k (drand48_vals w) + flattened t k (drand48_vals w)
                     + rebuilt t k (drand48_vals w)
          \<and> (allocs_ok w \<longrightarrow> allocs_ok w'))"

definition ins_result ::
  "TreeNode \<Rightarrow> int \<Rightarrow> world \<Rightarrow> failure + (int \<times> RBST option \<times> world) \<Rightarrow> bool" where
  "ins_result t k w res =
     (case res of
        Inl e \<Rightarrow> (e = Exit \<or> e = NullDeref) \<and> \<not> allocs_ok w
      | Inr (n, bst', w') \<Rightarrow>
          (case bst' of
             None \<Rightarrow> False
           | Some b \<Rightarrow>
               size_ok (root b) \<and> mset (inorder (root b)) = add_mset k (mset (inorder t))
               \<and> (sorted (inorder t) \<longrightarrow> inorder (root b) = ins k (inorder t)))
          \<and> n = 1 + descended t k (drand48_vals w) + flattened t k (drand48_vals w)
                  + rebuilt t k (drand48_vals w)
          \<and> (allocs_ok w \<longrightarrow> allocs_ok w'))"

definition keys_result ::
  "TreeNode \<Rightarrow> int list \<Rightarrow> world \<Rightarrow> failure + (int \<times> RBST option \<times> world) \<Rightarrow> bool" where
  "keys_result t ks w res =
     (case res of
        Inl e \<Rightarrow> (e = Exit \<or> e = NullDeref) \<and> \<not> allocs_ok w
      | Inr (n, bst', w') \<Rightarrow>
          (case bst' of
             None \<Rightarrow> False
           | Some b \<Rightarrow>
               size_ok (root b) \<and> mset (inorder (root b)) = mset (inorder t) + mset ks
               \<and> (sorted (inorder t) \<longrightarrow> inorder (root b) = foldl (\<lambda>xs k. ins k xs) (inorder t) ks))
          \<and> (allocs_ok w \<longrightarrow> allocs_ok w'))"

section \<open>Auxiliary lemmas\<close>

declare makeRBST.simps [simp del]

lemma run_keys_append:
  "run_keys nn L (xs @ ys) s =
     (case run_keys nn L xs s of Inl e \<Rightarrow> Inl e | Inr s1 \<Rightarrow> run_keys nn L ys s1)"
  by (induction xs arbitrary: s) (auto split: sum.splits)

lemma free_node_freed: "free_node (TreeNode k sz l r) w = w\<lparr>freed := freed w @ [k]\<rparr>"
  by simp

lemma flattenRBST_run:
  "flattenRBST nn t L s w =
     (case leaf_step nn L s of
        Inl e \<Rightarrow> Inl e
      | Inr s1 \<Rightarrow>
         (case run_keys nn L (inorder t) s1 of
            Inl e \<Rightarrow> Inl e
          | Inr s2 \<Rightarrow> Inr (s2, w\<lparr>freed := freed w @ postorder t\<rparr>)))"
proof (induction t arbitrary: s w)
  case NULL
  show ?case by (simp add: leaf_step_def split: sum.splits)
next
  case (TreeNode ck csz l r)
  show ?case
    apply (simp only: flattenRBST.simps TreeNode.IH inorder.simps postorder.simps run_keys_append run_keys.simps)
    apply (cases nn)
     apply (auto simp: node_step_def split: sum.splits)
    done
qed

lemma room_mono: "room s m \<Longrightarrow> n \<le> m \<Longrightarrow> room s n"
  by (auto simp: room_def)

lemma store_room:
  "room s (Suc m) \<Longrightarrow> store (curIndex s) v s =
     Inr (s\<lparr>bstArr := map_option (\<lambda>cs. cs[nat (curIndex s) := Val v]) (bstArr s),
            writes := writes s @ [curIndex s]\<rparr>)"
  by (auto simp: room_def store_def)

lemma put_new_room:
  "room s (Suc m) \<Longrightarrow> put_new (TreeNode k a b c) s = Inr (put k s)"
  by (simp add: put_new_def store_room put_def push_def)

lemma room_push: "room s (Suc m) \<Longrightarrow> room (push v s) m"
  by (auto simp: room_def push_def)

lemma room_visit: "room s (Suc m) \<Longrightarrow> room (visit v s) m"
  by (auto simp: room_def push_def visit_def)

lemma room_put: "room s (Suc m) \<Longrightarrow> room (put v s) m"
  by (auto simp: room_def push_def put_def)

lemma room_isAdded [simp]: "room (s\<lparr>isAdded := b\<rparr>) m = room s m"
  by (simp add: room_def)

lemma node_step_plain:
  "room s (Suc m) \<Longrightarrow> isAdded s \<or> \<not> k < x \<Longrightarrow>
   node_step (TreeNode k a b c) x s = Inr (visit x s)"
  by (auto simp: node_step_def store_def room_def visit_def push_def)

lemma node_step_new:
  "room s (Suc (Suc m)) \<Longrightarrow> \<not> isAdded s \<Longrightarrow> k < x \<Longrightarrow>
   node_step (TreeNode k a b c) x s = Inr (visit x ((put k s)\<lparr>isAdded := True\<rparr>))"
  by (auto simp: node_step_def put_new_def store_def room_def visit_def push_def put_def)

lemma visit_fields [simp]:
  "isAdded (visit x s) = isAdded s"
  "curIndex (visit x s) = curIndex s + 1"
  "newNodeIndex (visit x s) = newNodeIndex s"
  "nodesVisited (visit x s) = nodesVisited s + 1"
  "writes (visit x s) = writes s @ [curIndex s]"
  by (simp_all add: visit_def push_def)

lemma put_fields [simp]:
  "isAdded (put x s) = isAdded s"
  "curIndex (put x s) = curIndex s + 1"
  "newNodeIndex (put x s) = Some (curIndex s)"
  "nodesVisited (put x s) = nodesVisited s"
  "writes (put x s) = writes s @ [curIndex s]"
  by (simp_all add: put_def push_def)

lemma run_keys_added:
  "isAdded s \<Longrightarrow> room s (length xs) \<Longrightarrow>
   run_keys (TreeNode k a b c) L xs s = Inr (fold visit xs s)"
proof (induction xs arbitrary: s)
  case Nil
  show ?case by simp
next
  case (Cons x xs)
  from Cons.prems have r: "room s (Suc (length xs))" by simp
  have "room (visit x s) (length xs)" by (rule room_visit [OF r])
  with Cons.IH [of "visit x s"] Cons.prems(1)
  show ?case by (simp add: node_step_plain [OF r] leaf_step_def)
qed

lemma run_keys_small:
  "\<not> isAdded s \<Longrightarrow> \<forall>x\<in>set xs. \<not> k < x \<Longrightarrow> room s (length xs) \<Longrightarrow>
   curIndex s + int (length xs) < L - 1 \<Longrightarrow>
   run_keys (TreeNode k a b c) L xs s = Inr (fold visit xs s)"
proof (induction xs arbitrary: s)
  case Nil
  show ?case by simp
next
  case (Cons x xs)
  from Cons.prems have r: "room s (Suc (length xs))" by simp
  have r': "room (visit x s) (length xs)" by (rule room_visit [OF r])
  have "run_keys (TreeNode k a b c) L xs (visit x s) = Inr (fold visit xs (visit x s))"
    using Cons.prems r' by (intro Cons.IH) auto
  with Cons.prems show ?case by (simp add: node_step_plain [OF r] leaf_step_def)
qed

lemma run_keys_end:
  "\<not> isAdded s \<Longrightarrow> \<forall>x\<in>set xs. \<not> k < x \<Longrightarrow> xs \<noteq> [] \<Longrightarrow> room s (Suc (length xs)) \<Longrightarrow>
   curIndex s + int (length xs) = L - 1 \<Longrightarrow>
   run_keys (TreeNode k a b c) L xs s = Inr (put k (fold visit xs s))"
proof (induction xs arbitrary: s)
  case Nil
  then show ?case by simp
next
  case (Cons x xs)
  from Cons.prems have r: "room s (Suc (Suc (length xs)))" by simp
  have r': "room (visit x s) (Suc (length xs))" by (rule room_visit [OF r])
  show ?case
  proof (cases "xs = []")
    case True
    with Cons.prems r' show ?thesis
      by (simp add: node_step_plain [OF r] leaf_step_def put_new_room)
  next
    case False
    have "run_keys (TreeNode k a b c) L xs (visit x s) = Inr (put k (fold visit xs (visit x s)))"
      using Cons.prems r' False by (intro Cons.IH) auto
    moreover have "curIndex (visit x s) \<noteq> L - 1"
      using Cons.prems(5) False by (cases xs) auto
    ultimately show ?thesis using Cons.prems(1,2)
      by (simp add: node_step_plain [OF r] leaf_step_def)
  qed
qed

lemma fold_visit_fields [simp]:
  "isAdded (fold visit xs s) = isAdded s"
  "curIndex (fold visit xs s) = curIndex s + int (length xs)"
  "newNodeIndex (fold visit xs s) = newNodeIndex s"
  "nodesVisited (fold visit xs s) = nodesVisited s + int (length xs)"
  by (induction xs arbitrary: s) simp_all

lemma room_fold_visit: "room s (length xs + m) \<Longrightarrow> room (fold visit xs s) m"
proof (induction xs arbitrary: s)
  case Nil
  then show ?case by simp
next
  case (Cons x xs)
  then show ?case using room_visit [of s "length xs + m" x] by simp
qed

lemma run_keys_insert:
  assumes "\<not> isAdded s" "\<forall>x\<in>set ys. \<not> k < x" "k < z"
    and "room s (length ys + length zs + 2)"
    and "curIndex s + int (length ys) < L - 1"
  shows "run_keys (TreeNode k a b c) L (ys @ z # zs) s =
           Inr (fold visit zs (visit z ((put k (fold visit ys s))\<lparr>isAdded := True\<rparr>)))"
proof -
  let ?s1 = "fold visit ys s"
  have 1: "run_keys (TreeNode k a b c) L ys s = Inr ?s1"
    using assms by (intro run_keys_small) (auto elim: room_mono)
  have r1: "room ?s1 (Suc (Suc (length zs)))"
    using room_fold_visit [of s ys "Suc (Suc (length zs))"] assms(4) by simp
  have 2: "node_step (TreeNode k a b c) z ?s1 = Inr (visit z ((put k ?s1)\<lparr>isAdded := True\<rparr>))"
    using assms by (intro node_step_new [OF r1]) auto
  let ?s2 = "visit z ((put k ?s1)\<lparr>isAdded := True\<rparr>)"
  have r2: "room ?s2 (length zs)"
    using r1 by (intro room_visit) (simp add: room_put)
  have 3: "run_keys (TreeNode k a b c) L zs ?s2 = Inr (fold visit zs ?s2)"
    using r2 by (intro run_keys_added) auto
  show ?thesis by (simp add: run_keys_append 1 2 3 leaf_step_def)
qed

lemma filled_push:
  assumes "filled s vs" "room s (Suc m)"
  shows "filled (push x s) (vs @ [x])"
proof -
  from assms obtain cs where cs: "bstArr s = Some cs" "take (length vs) cs = map Val vs"
    "curIndex s = int (length vs)" "writes s = map int [0..<length vs]" "length vs < length cs"
    by (auto simp: filled_def room_def split: option.splits)
  have "take (Suc (length vs)) (cs[length vs := Val x]) = map Val vs @ [Val x]"
    using cs(2,5) by (simp add: take_Suc_conv_app_nth)
  with cs show ?thesis by (simp add: filled_def push_def)
qed

lemma filled_visit: "filled s vs \<Longrightarrow> room s (Suc m) \<Longrightarrow> filled (visit x s) (vs @ [x])"
  using filled_push [of "s\<lparr>nodesVisited := nodesVisited s + 1\<rparr>" vs m x]
  by (simp add: visit_def filled_def room_def)

lemma filled_put: "filled s vs \<Longrightarrow> room s (Suc m) \<Longrightarrow> filled (put x s) (vs @ [x])"
  using filled_push [of s vs m x] by (simp add: put_def filled_def)

lemma filled_isAdded [simp]: "filled (s\<lparr>isAdded := b\<rparr>) vs = filled s vs"
  by (simp add: filled_def)

lemma filled_fold_visit:
  "filled s vs \<Longrightarrow> room s (length xs) \<Longrightarrow> filled (fold visit xs s) (vs @ xs)"
proof (induction xs arbitrary: s vs)
  case Nil
  then show ?case by simp
next
  case (Cons x xs)
  from Cons.prems have r: "room s (Suc (length xs))" by simp
  have "filled (fold visit xs (visit x s)) ((vs @ [x]) @ xs)"
    by (intro Cons.IH filled_visit [OF Cons.prems(1) r] room_visit [OF r])
  then show ?case by simp
qed

lemma arr_len_push [simp]:
  "arr_len (push x s) = arr_len s"
  "arr_len (visit x s) = arr_len s"
  "arr_len (put x s) = arr_len s"
  "arr_len (s\<lparr>isAdded := b\<rparr>) = arr_len s"
  by (cases "bstArr s"; simp add: push_def visit_def put_def arr_len_def)+

lemma arr_len_fold_visit [simp]: "arr_len (fold visit xs s) = arr_len s"
  by (induction xs arbitrary: s) simp_all

lemma filled_full:
  assumes "filled s vs" "arr_len s = Some (length vs)"
  shows "bstArr s = Some (map Val vs)"
  using assms by (auto simp: filled_def arr_len_def split: option.splits)

lemma add_size_eq: "add_size n t = n + size_of t"
  by (cases t) simp_all

lemma size_ok_length: "size_ok t \<Longrightarrow> size_of t = int (length (inorder t))"
  by (induction t) auto

lemma flat_init_fields [simp]:
  "isAdded (flat_init L nv) = False"
  "curIndex (flat_init L nv) = 0"
  "nodesVisited (flat_init L nv) = nv"
  "newNodeIndex (flat_init L nv) = None"
  "writes (flat_init L nv) = []"
  "bstArr (flat_init L nv) = Some (replicate (nat L) Uninit)"
  by (simp_all add: flat_init_def)

lemma arr_len_flat_init [simp]: "arr_len (flat_init L nv) = Some (nat L)"
  by (simp add: arr_len_def)

lemma flatten_init:
  fixes k :: int
  assumes ok: "size_ok (TreeNode ck csz l r)"
  defines "xs \<equiv> inorder (TreeNode ck csz l r)"
  defines "ys \<equiv> takeWhile (\<lambda>x. \<not> k < x) xs" and "zs \<equiv> dropWhile (\<lambda>x. \<not> k < x) xs"
  shows "flattenRBST (TreeNode k a b c) (TreeNode ck csz l r) (csz + 1) (flat_init (csz + 1) nv) w =
     Inr (\<lparr>bstArr = Some (map Val (ys @ k # zs)), curIndex = csz + 1,
           newNodeIndex = Some (int (length ys)), isAdded = (zs \<noteq> []),
           nodesVisited = nv + csz, writes = map int [0..<nat (csz + 1)]\<rparr>,
          w\<lparr>freed := freed w @ postorder (TreeNode ck csz l r)\<rparr>)"
proof -
  let ?s0 = "flat_init (csz + 1) nv"
  let ?nn = "TreeNode k a b c"
  have len: "csz = int (length xs)"
    using size_ok_length [OF ok] by (simp add: xs_def)
  have pos: "xs \<noteq> []" by (simp add: xs_def)
  have split: "xs = ys @ zs" by (simp add: ys_def zs_def)
  have r0: "room ?s0 (Suc (length xs))"
    by (simp add: room_def len)
  have f0: "filled ?s0 []"
    by (simp add: filled_def)
  have nz: "csz \<noteq> 0" using pos len by simp
  have leaf: "leaf_step ?nn (csz + 1) ?s0 = Inr ?s0"
    using nz by (simp add: leaf_step_def)
  have "\<exists>s1. run_keys ?nn (csz + 1) xs ?s0 = Inr s1 \<and> filled s1 (ys @ k # zs)
          \<and> arr_len s1 = Some (Suc (length xs))
          \<and> newNodeIndex s1 = Some (int (length ys)) \<and> isAdded s1 = (zs \<noteq> [])
          \<and> nodesVisited s1 = nv + csz \<and> flat.more s1 = ()"
  proof (cases "zs = []")
    case True
    then have all: "\<forall>x\<in>set xs. \<not> k < x"
      unfolding zs_def by (simp only: dropWhile_eq_Nil_conv)
    then have ysx: "ys = xs"
      unfolding ys_def by (simp only: takeWhile_eq_all_conv)
    have run: "run_keys ?nn (csz + 1) xs ?s0 = Inr (put k (fold visit xs ?s0))"
      using all pos r0 by (intro run_keys_end) (simp_all add: len)
    have "filled (fold visit xs ?s0) ([] @ xs)"
      by (intro filled_fold_visit f0 room_mono [OF r0]) simp
    then have "filled (put k (fold visit xs ?s0)) (xs @ [k])"
      using room_fold_visit [of ?s0 xs 1] r0 by (intro filled_put [where m = 0]) simp_all
    with run True ysx show ?thesis by (simp add: len)
  next
    case False
    then obtain z zs' where zs: "zs = z # zs'" by (cases zs) auto
    have kz: "k < z"
      using hd_dropWhile [of "\<lambda>x. \<not> k < x" xs] False zs by (simp add: zs_def)
    have all: "\<forall>x\<in>set ys. \<not> k < x"
      by (auto simp: ys_def dest: set_takeWhileD)
    have xs': "xs = ys @ z # zs'" using split zs by simp
    let ?s1 = "fold visit zs' (visit z ((put k (fold visit ys ?s0))\<lparr>isAdded := True\<rparr>))"
    have run: "run_keys ?nn (csz + 1) (ys @ z # zs') ?s0 = Inr ?s1"
    proof (rule run_keys_insert)
      show "room ?s0 (length ys + length zs' + 2)" using r0 xs' by simp
      show "curIndex ?s0 + int (length ys) < csz + 1 - 1" using xs' by (simp add: len)
    qed (use all kz in simp_all)
    have ra: "room ?s0 (length ys + Suc (Suc (length zs')))" using r0 xs' by simp
    have rb: "room (fold visit ys ?s0) (Suc (Suc (length zs')))"
      by (rule room_fold_visit [OF ra])
    have fa: "filled (fold visit ys ?s0) ([] @ ys)"
      by (intro filled_fold_visit f0 room_mono [OF ra]) simp
    have fb: "filled (put k (fold visit ys ?s0)) (ys @ [k])"
      using filled_put [OF fa rb] by simp
    have rc: "room ((put k (fold visit ys ?s0))\<lparr>isAdded := True\<rparr>) (Suc (length zs'))"
      using room_put [OF rb] by simp
    have fc: "filled (visit z ((put k (fold visit ys ?s0))\<lparr>isAdded := True\<rparr>)) ((ys @ [k]) @ [z])"
      by (rule filled_visit [OF _ rc]) (simp add: fb)
    have "filled ?s1 (((ys @ [k]) @ [z]) @ zs')"
      by (intro filled_fold_visit fc room_visit [OF rc])
    then have "filled ?s1 (ys @ k # zs)" by (simp add: zs)
    with run False show ?thesis
      by (simp add: xs' [symmetric] zs len) (simp add: xs')
  qed
  then obtain s1 where s1: "run_keys ?nn (csz + 1) xs ?s0 = Inr s1" "filled s1 (ys @ k # zs)"
    "arr_len s1 = Some (Suc (length xs))"
    "newNodeIndex s1 = Some (int (length ys))" "isAdded s1 = (zs \<noteq> [])"
    "nodesVisited s1 = nv + csz" "flat.more s1 = ()"
    by blast
  have lenyz: "length (ys @ k # zs) = Suc (length xs)"
    using arg_cong [OF split, of length] by simp
  have arr: "bstArr s1 = Some (map Val (ys @ k # zs))"
    by (rule filled_full [OF s1(2)]) (simp only: s1(3) lenyz)
  have "s1 = \<lparr>bstArr = Some (map Val (ys @ k # zs)), curIndex = csz + 1,
           newNodeIndex = Some (int (length ys)), isAdded = (zs \<noteq> []),
           nodesVisited = nv + csz, writes = map int [0..<nat (csz + 1)]\<rparr>"
  proof (rule flat.equality)
    show "curIndex s1 = curIndex \<lparr>bstArr = Some (map Val (ys @ k # zs)), curIndex = csz + 1,
           newNodeIndex = Some (int (length ys)), isAdded = (zs \<noteq> []),
           nodesVisited = nv + csz, writes = map int [0..<nat (csz + 1)]\<rparr>"
      using s1(2) lenyz by (simp add: filled_def len del: length_append)
    show "writes s1 = writes \<lparr>bstArr = Some (map Val (ys @ k # zs)), curIndex = csz + 1,
           newNodeIndex = Some (int (length ys)), isAdded = (zs \<noteq> []),
           nodesVisited = nv + csz, writes = map int [0..<nat (csz + 1)]\<rparr>"
      using s1(2) lenyz by (simp add: filled_def len nat_add_distrib del: length_append)
  qed (simp_all add: arr s1)
  with s1(1) leaf show ?thesis
    by (simp add: flattenRBST_run xs_def)
qed

lemma slice_empty [simp]: "lst < first \<Longrightarrow> slice xs first lst = []"
  by (simp add: slice_def)

lemma slice_all: "slice xs 0 (int (length xs) - 1) = xs"
  by (simp add: slice_def)

lemma slice_split:
  assumes "0 \<le> first" "first \<le> i" "i \<le> lst" "lst < int (length xs)"
  shows "slice xs first lst = slice xs first (i - 1) @ xs ! nat i # slice xs (i + 1) lst"
proof -
  define f j e where "f = nat first" and "j = nat i" and "e = nat lst"
  have ord: "f \<le> j" "j \<le> e" "e < length xs"
    using assms unfolding f_def j_def e_def by linarith+
  have eqs: "nat (lst + 1 - first) = (j - f) + Suc (e - j)" "nat (i - 1 + 1 - first) = j - f"
    "nat (lst + 1 - (i + 1)) = e - j" "nat (i + 1) = Suc j"
    using assms unfolding f_def j_def e_def by linarith+
  have "take ((j - f) + Suc (e - j)) (drop f xs)
        = take (j - f) (drop f xs) @ take (Suc (e - j)) (drop (j - f) (drop f xs))"
    by (simp only: take_add)
  also have "drop (j - f) (drop f xs) = drop j xs" using ord by simp
  also have "drop j xs = xs ! j # drop (Suc j) xs"
    using ord by (simp add: Cons_nth_drop_Suc)
  finally have "take ((j - f) + Suc (e - j)) (drop f xs)
        = take (j - f) (drop f xs) @ xs ! j # take (e - j) (drop (Suc j) xs)"
    by simp
  then show ?thesis
    unfolding slice_def eqs f_def [symmetric] j_def [symmetric] .
qed

lemma allocs_ok_rand [simp]: "allocs_ok (snd (rand w)) = allocs_ok w"
  by (simp add: allocs_ok_def rand_def)

lemma allocs_ok_drand48 [simp]: "allocs_ok (snd (drand48 w)) = allocs_ok w"
  by (simp add: allocs_ok_def drand48_def)

lemma allocs_ok_free_node [simp]: "allocs_ok (free_node t w) = allocs_ok w"
  by (cases t) (simp_all add: allocs_ok_def)

lemma allocs_ok_freed [simp]: "allocs_ok (w\<lparr>freed := x\<rparr>) = allocs_ok w"
  by (simp add: allocs_ok_def)

lemma allocs_ok_malloc: "allocs_ok w \<Longrightarrow> fst (malloc w) \<and> allocs_ok (snd (malloc w))"
  by (simp add: allocs_ok_def malloc_def)

lemma malloc_fails: "\<not> fst (malloc w) \<Longrightarrow> \<not> allocs_ok w"
  by (auto simp: allocs_ok_def malloc_def)

lemma freed_rand [simp]: "freed (snd (rand w)) = freed w"
  by (simp add: rand_def)

lemma freed_drand48 [simp]: "freed (snd (drand48 w)) = freed w"
  by (simp add: drand48_def)

lemma freed_malloc [simp]: "freed (snd (malloc w)) = freed w"
  by (simp add: malloc_def)

lemma createNode_cases:
  "createNode k w = (if fst (malloc w) then Inr (TreeNode k 1 NULL NULL, snd (malloc w)) else Inl Exit)"
  by (simp add: createNode_def split: prod.splits)

lemma array_read_Val:
  "0 \<le> i \<Longrightarrow> i < int (length xs) \<Longrightarrow> array_read (Some (map Val xs)) i = Inr (xs ! nat i)"
  by (simp add: array_read_def)

lemma made_Inl: "made xs first lst nv w (Inl e) = (e = Exit \<and> \<not> allocs_ok w)"
  by (simp add: made_def)

lemma made_Inr:
  "made xs first lst nv w (Inr (t, nv', w')) =
     (inorder t = slice xs first lst \<and> size_ok t \<and> nv' = nv + int (length (inorder t))
      \<and> freed w' = freed w \<and> (allocs_ok w \<longrightarrow> allocs_ok w'))"
  by (simp add: made_def)

text \<open>Joining two rebuilt halves under a fresh node.\<close>

lemma made_join:
  assumes i: "0 \<le> first" "first \<le> i" "i \<le> lst" "lst < int (length xs)"
    and w1: "freed w1 = freed w" "allocs_ok w \<longrightarrow> allocs_ok w1"
    and left: "made xs first (i - 1) (nv + 1) w1 resl"
    and right: "\<And>l nv2 w2. resl = Inr (l, nv2, w2) \<Longrightarrow> made xs (i + 1) lst nv2 w2 (resr l nv2 w2)"
  shows "made xs first lst nv w
     (case resl of
        Inl e \<Rightarrow> Inl e
      | Inr (l, nv2, w2) \<Rightarrow>
         (case resr l nv2 w2 of
            Inl e \<Rightarrow> Inl e
          | Inr (r, nv3, w3) \<Rightarrow>
              Inr (TreeNode (xs ! nat i) (add_size (add_size 1 l) r) l r, nv3, w3)))"
proof (cases resl)
  case (Inl e)
  with left w1 show ?thesis by (auto simp: made_Inl)
next
  case (Inr p)
  then obtain l nv2 w2 where resl: "resl = Inr (l, nv2, w2)" by (cases p) auto
  note L = left [unfolded resl made_Inr]
  show ?thesis
  proof (cases "resr l nv2 w2")
    case (Inl e)
    with right [OF resl] L w1 show ?thesis by (auto simp: made_Inl resl)
  next
    case (Inr q)
    then obtain r nv3 w3 where resr: "resr l nv2 w2 = Inr (r, nv3, w3)" by (cases q) auto
    note R = right [OF resl, unfolded resr made_Inr]
    have sz: "size_of l = int (length (inorder l))" "size_of r = int (length (inorder r))"
      using L R by (simp_all add: size_ok_length)
    have "made xs first lst nv w
            (Inr (TreeNode (xs ! nat i) (add_size (add_size 1 l) r) l r, nv3, w3))"
      using L R w1 sz by (simp add: made_Inr slice_split [OF i] add_size_eq)
    then show ?thesis by (simp add: resl resr)
  qed
qed

lemma makeRBST_added:
  assumes "0 \<le> first" "lst < int (length xs)"
  shows "made xs first lst nv w (makeRBST (Some (map Val xs)) first lst nni True nv w)"
  using assms
proof (induction "nat (lst + 1 - first)" arbitrary: first lst nv w rule: less_induct)
  case less
  show ?case
  proof (cases "lst < first")
    case True
    then show ?thesis by (simp add: makeRBST.simps made_Inr)
  next
    case False
    define w0 where "w0 = snd (rand w)"
    define i where "i = first + int (fst (rand w)) mod (lst - first + 1)"
    have "0 \<le> int (fst (rand w)) mod (lst - first + 1)"
      using False by (intro pos_mod_sign) simp
    moreover have "int (fst (rand w)) mod (lst - first + 1) < lst - first + 1"
      using False by (intro pos_mod_bound) simp
    ultimately have i: "first \<le> i" "i \<le> lst" by (simp_all add: i_def)
    have rd: "array_read (Some (map Val xs)) i = Inr (xs ! nat i)"
      using i less.prems by (intro array_read_Val) simp_all
    show ?thesis
    proof (cases "fst (malloc w0)")
      case no: False
      then have "\<not> allocs_ok w" using malloc_fails [of w0] by (simp add: w0_def)
      with no False show ?thesis
        by (subst makeRBST.simps)
           (simp add: made_Inl split_beta Let_def w0_def [symmetric] i_def [symmetric] rd
              createNode_cases)
    next
      case yes: True
      define w1 where "w1 = snd (malloc w0)"
      have w1: "freed w1 = freed w" "allocs_ok w \<longrightarrow> allocs_ok w1"
        using allocs_ok_malloc [of w0] by (simp_all add: w1_def w0_def)
      have eq: "makeRBST (Some (map Val xs)) first lst nni True nv w =
        (case makeRBST (Some (map Val xs)) first (i - 1) nni True (nv + 1) w1 of
           Inl e \<Rightarrow> Inl e
         | Inr (l, nv2, w2) \<Rightarrow>
            (case makeRBST (Some (map Val xs)) (i + 1) lst nni True nv2 w2 of
               Inl e \<Rightarrow> Inl e
             | Inr (r, nv3, w3) \<Rightarrow>
                 Inr (TreeNode (xs ! nat i) (add_size (add_size 1 l) r) l r, nv3, w3)))"
        using False yes rd unfolding i_def w1_def w0_def
        by (subst makeRBST.simps)
           (auto simp: createNode_cases Let_def split: sum.splits prod.splits)
      show ?thesis
        unfolding eq
      proof (rule made_join [OF less.prems(1) i less.prems(2) w1])
        show "made xs first (i - 1) (nv + 1) w1
                (makeRBST (Some (map Val xs)) first (i - 1) nni True (nv + 1) w1)"
          using i less.prems by (intro less.hyps) simp_all
        show "made xs (i + 1) lst nv2 w2
                (makeRBST (Some (map Val xs)) (i + 1) lst nni True nv2 w2)" for l nv2 w2
          using i less.prems by (intro less.hyps) simp_all
      qed
    qed
  qed
qed

lemma makeRBST_pinned:
  assumes "0 \<le> first" "first \<le> nni" "nni \<le> lst" "lst < int (length xs)"
  shows "case makeRBST (Some (map Val xs)) first lst nni False nv w of
           Inl e \<Rightarrow> e = Exit \<and> \<not> allocs_ok w
         | Inr (t, nv', w') \<Rightarrow>
             (case t of
                NULL \<Rightarrow> False
              | TreeNode k' sz' l' r' \<Rightarrow>
                  k' = xs ! nat nni \<and> inorder l' = slice xs first (nni - 1)
                  \<and> inorder r' = slice xs (nni + 1) lst)
             \<and> size_ok t \<and> nv' = nv + (lst + 1 - first) \<and> freed w' = freed w
             \<and> (allocs_ok w \<longrightarrow> allocs_ok w')"
proof -
  have rd: "array_read (Some (map Val xs)) nni = Inr (xs ! nat nni)"
    using assms by (intro array_read_Val) simp_all
  show ?thesis
  proof (cases "fst (malloc w)")
    case False
    then have "\<not> allocs_ok w" by (rule malloc_fails)
    with False assms show ?thesis
      by (subst makeRBST.simps) (simp add: rd createNode_cases)
  next
    case True
    define w1 where "w1 = snd (malloc w)"
    define resl where "resl = makeRBST (Some (map Val xs)) first (nni - 1) nni True (nv + 1) w1"
    define resr where
      "resr = (\<lambda>nv2 w2. makeRBST (Some (map Val xs)) (nni + 1) lst nni True nv2 w2)"
    have w1: "allocs_ok w \<longrightarrow> allocs_ok w1" "freed w1 = freed w"
      using allocs_ok_malloc [of w] by (simp_all add: w1_def)
    have L: "made xs first (nni - 1) (nv + 1) w1 resl"
      unfolding resl_def using assms by (intro makeRBST_added) simp_all
    have R: "made xs (nni + 1) lst nv2 w2 (resr nv2 w2)" for nv2 w2
      unfolding resr_def using assms by (intro makeRBST_added) simp_all
    have eq: "makeRBST (Some (map Val xs)) first lst nni False nv w =
        (case resl of
           Inl e \<Rightarrow> Inl e
         | Inr (l, nv2, w2) \<Rightarrow>
            (case resr nv2 w2 of
               Inl e \<Rightarrow> Inl e
             | Inr (r, nv3, w3) \<Rightarrow>
                 Inr (TreeNode (xs ! nat nni) (add_size (add_size 1 l) r) l r, nv3, w3)))"
      using assms True rd unfolding resl_def resr_def w1_def
      by (subst makeRBST.simps)
         (auto simp: createNode_cases split: sum.splits prod.splits)
    have len: "int (length (slice xs first lst)) = lst + 1 - first"
      using assms by (simp add: slice_def)
    show ?thesis
    proof (cases resl)
      case (Inl e)
      with L w1 show ?thesis by (auto simp: eq made_Inl)
    next
      case (Inr p)
      then obtain l nv2 w2 where resl: "resl = Inr (l, nv2, w2)" by (cases p) auto
      note L' = L [unfolded resl made_Inr]
      show ?thesis
      proof (cases "resr nv2 w2")
        case (Inl e)
        with R [of nv2 w2] L' w1 show ?thesis by (auto simp: eq resl made_Inl)
      next
        case (Inr q)
        then obtain r nv3 w3 where resr: "resr nv2 w2 = Inr (r, nv3, w3)" by (cases q) auto
        note R' = R [of nv2 w2, unfolded resr made_Inr]
        have sz: "size_of l = int (length (inorder l))" "size_of r = int (length (inorder r))"
          using L' R' by (simp_all add: size_ok_length)
        have "length (slice xs first lst) = length (inorder l) + 1 + length (inorder r)"
          using L' R' by (simp add: slice_split [OF assms(1,2,3,4)])
        with len have "lst + 1 - first = int (length (inorder l)) + 1 + int (length (inorder r))"
          by simp
        moreover have "makeRBST (Some (map Val xs)) first lst nni False nv w =
            Inr (TreeNode (xs ! nat nni) (add_size (add_size 1 l) r) l r, nv3, w3)"
          by (simp add: eq resl resr)
        ultimately show ?thesis
          using L' R' w1 sz by (simp add: add_size_eq)
      qed
    qed
  qed
qed

lemma run_keys_null_array:
  "bstArr s = None \<Longrightarrow> xs \<noteq> [] \<Longrightarrow> run_keys (TreeNode k a b c) L xs s = Inl NullDeref"
  by (cases xs) (auto simp: node_step_def put_new_def store_def split: sum.splits)

lemma flatten_null_array:
  assumes "bstArr s = None" "curIndex s \<noteq> L - 1"
  shows "flattenRBST (TreeNode k a b c) (TreeNode ck csz l r) L s w = Inl NullDeref"
proof -
  have "leaf_step (TreeNode k a b c) L s = Inr s"
    using assms by (simp add: leaf_step_def)
  moreover have "run_keys (TreeNode k a b c) L (inorder (TreeNode ck csz l r)) s = Inl NullDeref"
    using assms by (intro run_keys_null_array) simp_all
  ultimately show ?thesis by (simp only: flattenRBST_run sum.case)
qed

lemma length_takeWhile_dropWhile:
  "length xs = length (takeWhile P xs) + length (dropWhile P xs)"
  by (induction xs) auto

lemma slice_ins:
  fixes k :: int and xs :: "int list"
  defines "ys \<equiv> takeWhile (\<lambda>x. \<not> k < x) xs" and "zs \<equiv> dropWhile (\<lambda>x. \<not> k < x) xs"
  shows "slice (ys @ k # zs) 0 (int (length ys) - 1) = ys"
    and "slice (ys @ k # zs) (int (length ys) + 1) (int (length xs)) = zs"
    and "(ys @ k # zs) ! nat (int (length ys)) = k"
proof -
  have "length xs = length ys + length zs"
    unfolding ys_def zs_def by (rule length_takeWhile_dropWhile)
  then have n: "nat (int (length xs) + 1 - (int (length ys) + 1)) = length zs" by simp
  show "slice (ys @ k # zs) 0 (int (length ys) - 1) = ys" by (simp add: slice_def)
  show "slice (ys @ k # zs) (int (length ys) + 1) (int (length xs)) = zs"
    unfolding slice_def n by (simp add: nat_add_distrib)
  show "(ys @ k # zs) ! nat (int (length ys)) = k" by simp
qed

lemma reconstructRBST_spec:
  fixes k :: int
  assumes ok: "size_ok (TreeNode ck csz l r)"
  defines "xs \<equiv> inorder (TreeNode ck csz l r)"
  shows "case reconstructRBST (TreeNode ck csz l r) (TreeNode k a b c) nv w of
           Inl e \<Rightarrow> e = (if fst (malloc w) then Exit else NullDeref) \<and> \<not> allocs_ok w
         | Inr (t', nv', w') \<Rightarrow>
             (case t' of
                NULL \<Rightarrow> False
              | TreeNode k' sz' l' r' \<Rightarrow>
                  k' = k \<and> inorder l' = takeWhile (\<lambda>x. \<not> k < x) xs
                  \<and> inorder r' = dropWhile (\<lambda>x. \<not> k < x) xs)
             \<and> size_ok t' \<and> nv' = nv + csz + (csz + 1)
             \<and> freed w' = freed w @ postorder (TreeNode ck csz l r) @ [k]
             \<and> (allocs_ok w \<longrightarrow> allocs_ok w')"
proof -
  define ys zs where "ys = takeWhile (\<lambda>x. \<not> k < x) xs" and "zs = dropWhile (\<lambda>x. \<not> k < x) xs"
  have len: "csz = int (length xs)"
    using size_ok_length [OF ok] by (simp add: xs_def)
  have pos: "xs \<noteq> []" by (simp add: xs_def)
  have lenyz: "length xs = length ys + length zs"
    unfolding ys_def zs_def by (rule length_takeWhile_dropWhile)
  show ?thesis
  proof (cases "fst (malloc w)")
    case False
    have "csz \<noteq> 0" using pos len by simp
    then have "flattenRBST (TreeNode k a b c) (TreeNode ck csz l r) (csz + 1)
       \<lparr>bstArr = None, curIndex = 0, newNodeIndex = None, isAdded = False,
        nodesVisited = nv, writes = []\<rparr> (snd (malloc w)) = Inl NullDeref"
      by (intro flatten_null_array) simp_all
    with False malloc_fails [OF False] show ?thesis
      by (simp add: reconstructRBST_def split_beta)
  next
    case True
    define w3 where
      "w3 = free_node (TreeNode k a b c)
              ((snd (malloc w))\<lparr>freed := freed (snd (malloc w)) @ postorder (TreeNode ck csz l r)\<rparr>)"
    have w3: "allocs_ok w \<longrightarrow> allocs_ok w3"
      "freed w3 = freed w @ postorder (TreeNode ck csz l r) @ [k]"
      using allocs_ok_malloc [of w] by (simp_all add: w3_def)
    have eq: "reconstructRBST (TreeNode ck csz l r) (TreeNode k a b c) nv w =
        makeRBST (Some (map Val (ys @ k # zs))) 0 csz (int (length ys)) False (nv + csz) w3"
      using True
      unfolding reconstructRBST_def w3_def ys_def zs_def xs_def
      by (simp add: split_beta Let_def flatten_init [OF ok, unfolded flat_init_def]
            del: flattenRBST.simps free_node.simps inorder.simps postorder.simps)
    have P: "case makeRBST (Some (map Val (ys @ k # zs))) 0 csz (int (length ys)) False (nv + csz) w3 of
           Inl e \<Rightarrow> e = Exit \<and> \<not> allocs_ok w3
         | Inr (t, nv', w') \<Rightarrow>
             (case t of
                NULL \<Rightarrow> False
              | TreeNode k' sz' l' r' \<Rightarrow>
                  k' = (ys @ k # zs) ! nat (int (length ys))
                  \<and> inorder l' = slice (ys @ k # zs) 0 (int (length ys) - 1)
                  \<and> inorder r' = slice (ys @ k # zs) (int (length ys) + 1) csz)
             \<and> size_ok t \<and> nv' = nv + csz + (csz + 1 - 0) \<and> freed w' = freed w3
             \<and> (allocs_ok w3 \<longrightarrow> allocs_ok w')"
      by (rule makeRBST_pinned) (simp_all add: len lenyz)
    have sl: "slice (ys @ k # zs) 0 (int (length ys) - 1) = ys"
      "slice (ys @ k # zs) (int (length ys) + 1) csz = zs"
      "(ys @ k # zs) ! nat (int (length ys)) = k"
      unfolding ys_def zs_def len by (rule slice_ins)+
    from P w3 True show ?thesis
      unfolding eq sl ys_def [symmetric] zs_def [symmetric]
      by (auto split: sum.splits TreeNode.splits)
  qed
qed

lemma ins_Nil [simp]: "ins k [] = [k]"
  by (simp add: ins_def)

lemma ins_Cons: "ins k (x # xs) = (if k < x then k # x # xs else x # ins k xs)"
  by (simp add: ins_def)

lemma mset_ins [simp]: "mset (ins k xs) = add_mset k (mset xs)"
  by (induction xs) (simp_all add: ins_Cons)

lemma set_ins [simp]: "set (ins k xs) = insert k (set xs)"
  by (induction xs) (auto simp: ins_Cons)

lemma length_ins [simp]: "length (ins k xs) = Suc (length xs)"
  by (induction xs) (simp_all add: ins_Cons)

lemma sorted_ins: "sorted xs \<Longrightarrow> sorted (ins k xs)"
  by (induction xs) (auto simp: ins_Cons)

lemma ins_left: "k < ck \<Longrightarrow> ins k (xs @ ck # zs) = ins k xs @ ck # zs"
  by (induction xs) (simp_all add: ins_Cons)

lemma ins_right:
  "\<forall>x\<in>set xs. \<not> k < x \<Longrightarrow> \<not> k < ck \<Longrightarrow> ins k (xs @ ck # zs) = xs @ ck # ins k zs"
  by (induction xs) (simp_all add: ins_Cons)

lemma inserted_Inl:
  "inserted t k nv w (Inl e) = ((e = Exit \<or> e = NullDeref) \<and> \<not> allocs_ok w)"
  by (simp add: inserted_def)

lemma inserted_Inr:
  "inserted t k nv w (Inr (t', nv', w')) =
     (size_ok t' \<and> mset (inorder t') = add_mset k (mset (inorder t))
      \<and> (sorted (inorder t) \<longrightarrow> inorder t' = ins k (inorder t))
      \<and> nv' = nv + descended t k (drand48_vals w) + flattened t k (drand48_vals w)
                 + rebuilt t k (drand48_vals w)
      \<and> (allocs_ok w \<longrightarrow> allocs_ok w'))"
  by (simp add: inserted_def)

lemma drand48_vals_snd: "drand48_vals (snd (drand48 w)) = (\<lambda>i. drand48_vals w (Suc i))"
  by (simp add: drand48_def)

lemma drand48_fst: "fst (drand48 w) = drand48_vals w 0"
  by (simp add: drand48_def)

lemma insertRBSTHelper_rebuild:
  assumes ok: "size_ok (TreeNode ck csz l r)" and rb: "rebuild_here (drand48_vals w 0) csz"
  shows "inserted (TreeNode ck csz l r) k nv w
           (reconstructRBST (TreeNode ck csz l r) (TreeNode k a b c) (nv + 1) (snd (drand48 w)))"
proof -
  let ?t = "TreeNode ck csz l r"
  have len: "csz = int (length (inorder ?t))"
    using size_ok_length [OF ok] by simp
  note R = reconstructRBST_spec [OF ok, where k = k and a = a and b = b and c = c
      and nv = "nv + 1" and w = "snd (drand48 w)"]
  show ?thesis
  proof (cases "reconstructRBST ?t (TreeNode k a b c) (nv + 1) (snd (drand48 w))")
    case (Inl e)
    with R show ?thesis by (auto simp: inserted_Inl split: if_splits)
  next
    case (Inr p)
    then obtain t' nv' w' where res:
      "reconstructRBST ?t (TreeNode k a b c) (nv + 1) (snd (drand48 w)) = Inr (t', nv', w')"
      by (cases p) auto
    from R [unfolded res] obtain k' sz' l' r' where t': "t' = TreeNode k' sz' l' r'"
      by (cases t') auto
    from R [unfolded res] have P: "k' = k"
      "inorder l' = takeWhile (\<lambda>x. \<not> k < x) (inorder ?t)"
      "inorder r' = dropWhile (\<lambda>x. \<not> k < x) (inorder ?t)"
      "size_ok t'" "nv' = nv + 1 + csz + (csz + 1)" "allocs_ok w \<longrightarrow> allocs_ok w'"
      by (simp_all add: t')
    have io: "inorder t' = ins k (inorder ?t)"
      unfolding t' ins_def using P(1,2,3) by simp
    show ?thesis
      unfolding res inserted_Inr io
      using P(4,5,6) rb len by simp
  qed
qed

lemma insertRBSTHelper_spec:
  "size_ok t \<Longrightarrow> inserted t k nv w (insertRBSTHelper t (TreeNode k 1 NULL NULL) nv w)"
proof (induction t arbitrary: nv w)
  case NULL
  show ?case by (simp add: inserted_Inr)
next
  case (TreeNode ck csz l r)
  let ?t = "TreeNode ck csz l r"
  let ?nn = "TreeNode k 1 NULL NULL"
  define w1 where "w1 = snd (drand48 w)"
  have w1: "allocs_ok w1 = allocs_ok w" "drand48_vals w1 = (\<lambda>i. drand48_vals w (Suc i))"
    by (simp_all add: w1_def drand48_vals_snd)
  from TreeNode.prems have okl: "size_ok l" and okr: "size_ok r"
    and csz: "csz = 1 + size_of l + size_of r" by simp_all
  show ?case
  proof (cases "rebuild_here (drand48_vals w 0) csz")
    case True
    then have "insertRBSTHelper ?t ?nn nv w = reconstructRBST ?t ?nn (nv + 1) (snd (drand48 w))"
      by (simp add: split_beta drand48_fst)
    then show ?thesis
      using insertRBSTHelper_rebuild [OF TreeNode.prems True] by simp
  next
    case no: False
    show ?thesis
    proof (cases "k < ck")
      case True
      have eq: "insertRBSTHelper ?t ?nn nv w =
          (case insertRBSTHelper l ?nn (nv + 1) w1 of
             Inl e \<Rightarrow> Inl e
           | Inr (l', nv', w') \<Rightarrow> Inr (TreeNode ck (csz + 1) l' r, nv', w'))"
        using no True by (simp add: split_beta drand48_fst w1_def)
      note IH = TreeNode.IH(1) [OF okl, of "nv + 1" w1]
      show ?thesis
      proof (cases "insertRBSTHelper l ?nn (nv + 1) w1")
        case (Inl e)
        show ?thesis
          unfolding eq Inl using IH [unfolded Inl inserted_Inl] w1 by (simp add: inserted_Inl)
      next
        case (Inr p)
        then obtain l' nv' w' where res: "insertRBSTHelper l ?nn (nv + 1) w1 = Inr (l', nv', w')"
          by (cases p) auto
        note P = IH [unfolded res inserted_Inr]
        have "length (inorder l') = Suc (length (inorder l))"
          using P mset_eq_length [of "inorder l'" "ins k (inorder l)"] by simp
        then have sz: "size_of l' = size_of l + 1"
          using P okl by (simp add: size_ok_length)
        have so: "sorted (inorder ?t) \<Longrightarrow> sorted (inorder l)"
          by (simp add: sorted_append)
        show ?thesis
          unfolding eq res using P w1 no True sz csz okr so
          by (simp add: inserted_Inr ins_left)
      qed
    next
      case False
      have eq: "insertRBSTHelper ?t ?nn nv w =
          (case insertRBSTHelper r ?nn (nv + 1) w1 of
             Inl e \<Rightarrow> Inl e
           | Inr (r', nv', w') \<Rightarrow> Inr (TreeNode ck (csz + 1) l r', nv', w'))"
        using no False by (simp add: split_beta drand48_fst w1_def)
      note IH = TreeNode.IH(2) [OF okr, of "nv + 1" w1]
      show ?thesis
      proof (cases "insertRBSTHelper r ?nn (nv + 1) w1")
        case (Inl e)
        show ?thesis
          unfolding eq Inl using IH [unfolded Inl inserted_Inl] w1 by (simp add: inserted_Inl)
      next
        case (Inr p)
        then obtain r' nv' w' where res: "insertRBSTHelper r ?nn (nv + 1) w1 = Inr (r', nv', w')"
          by (cases p) auto
        note P = IH [unfolded res inserted_Inr]
        have "length (inorder r') = Suc (length (inorder r))"
          using P mset_eq_length [of "inorder r'" "ins k (inorder r)"] by simp
        then have sz: "size_of r' = size_of r + 1"
          using P okr by (simp add: size_ok_length)
        have so: "sorted (inorder ?t) \<Longrightarrow> sorted (inorder r) \<and> (\<forall>x\<in>set (inorder l). \<not> k < x)"
          using False by (fastforce simp: sorted_append)
        show ?thesis
          unfolding eq res using P w1 no False sz csz okl so
          by (simp add: inserted_Inr ins_right)
      qed
    qed
  qed
qed

lemma drand48_vals_malloc [simp]: "drand48_vals (snd (malloc w)) = drand48_vals w"
  by (simp add: malloc_def)

lemma insertRBST_spec:
  assumes ok: "size_ok t"
  shows "ins_result t k w (insertRBST (Some (RBST t)) k w)"
proof (cases "fst (malloc w)")
  case False
  with malloc_fails [OF False] show ?thesis
    by (simp add: ins_result_def insertRBST_def createNode_cases)
next
  case True
  define w1 where "w1 = snd (malloc w)"
  have w1: "allocs_ok w \<longrightarrow> allocs_ok w1" "drand48_vals w1 = drand48_vals w"
    using allocs_ok_malloc [of w] by (simp_all add: w1_def)
  have eq: "insertRBST (Some (RBST t)) k w =
      (case insertRBSTHelper t (TreeNode k 1 NULL NULL) 1 w1 of
         Inl e \<Rightarrow> Inl e
       | Inr (t', nv, w2) \<Rightarrow> Inr (nv, Some (RBST t'), w2))"
    using True by (cases t) (simp_all add: insertRBST_def createNode_cases w1_def)
  note H = insertRBSTHelper_spec [OF ok, of k 1 w1]
  show ?thesis
  proof (cases "insertRBSTHelper t (TreeNode k 1 NULL NULL) 1 w1")
    case (Inl e)
    show ?thesis
      unfolding eq Inl using H [unfolded Inl inserted_Inl] w1 by (auto simp: ins_result_def)
  next
    case (Inr p)
    then obtain t' nv w2 where res:
      "insertRBSTHelper t (TreeNode k 1 NULL NULL) 1 w1 = Inr (t', nv, w2)"
      by (cases p) auto
    show ?thesis
      unfolding eq res using H [unfolded res inserted_Inr] w1 by (simp add: ins_result_def)
  qed
qed

lemma insert_keys_spec:
  "size_ok t \<Longrightarrow> keys_result t ks w (insert_keys (Some (RBST t)) ks nv w)"
proof (induction ks arbitrary: t nv w)
  case Nil
  then show ?case by (simp add: keys_result_def)
next
  case (Cons k ks)
  note S = insertRBST_spec [OF Cons.prems, of k w]
  show ?case
  proof (cases "insertRBST (Some (RBST t)) k w")
    case (Inl e)
    with S show ?thesis by (simp add: keys_result_def ins_result_def)
  next
    case (Inr p)
    then obtain n bst' w' where res: "insertRBST (Some (RBST t)) k w = Inr (n, bst', w')"
      by (cases p) auto
    from S [unfolded res] obtain t' where bst': "bst' = Some (RBST t')"
      by (cases bst') (auto simp: ins_result_def intro: RBST.exhaust)
    from S [unfolded res bst'] have P: "size_ok t'"
      "mset (inorder t') = add_mset k (mset (inorder t))"
      "sorted (inorder t) \<longrightarrow> inorder t' = ins k (inorder t)"
      "allocs_ok w \<longrightarrow> allocs_ok w'"
      by (simp_all add: ins_result_def)
    note IH = Cons.IH [OF P(1), of w' "nv + n"]
    have eq: "insert_keys (Some (RBST t)) (k # ks) nv w = insert_keys (Some (RBST t')) ks (nv + n) w'"
      by (simp add: res bst')
    show ?thesis
      unfolding eq using IH P sorted_ins [of "inorder t" k]
      by (auto simp: keys_result_def split: sum.splits option.splits)
  qed
qed

lemma sorted_foldl_ins: "sorted xs \<Longrightarrow> sorted (foldl (\<lambda>xs k. ins k xs) xs ks)"
  by (induction ks arbitrary: xs) (simp_all add: sorted_ins)

lemma freeRBSTHelper_eq:
  "freeRBSTHelper t nv w = (nv + int (length (inorder t)), w\<lparr>freed := freed w @ postorder t\<rparr>)"
  by (induction t arbitrary: nv w) simp_all

lemma mset_postorder: "mset (postorder t) = mset (inorder t)"
  by (induction t) simp_all

lemma length_postorder: "length (postorder t) = length (inorder t)"
  by (induction t) simp_all


lemma allocs_ok_mk_world [simp]: "allocs_ok (mk_world rs ds [])"
  by (simp add: allocs_ok_def mk_world_def stream_of_def)

lemma bst_weak_sorted: "bst_weak t = sorted (inorder t)"
proof (induction t)
  case NULL
  show ?case by simp
next
  case (TreeNode k sz l r)
  have "x \<le> y" if "x \<in> set (inorder l)" "y \<in> set (inorder r)"
    "\<forall>x\<in>set (inorder l). x \<le> k" "\<forall>x\<in>set (inorder r). k \<le> x" for x y
    using that by (meson order_trans)
  with TreeNode show ?case by (auto simp: sorted_append)
qed

lemma bst_strict_weak: "bst_strict t \<Longrightarrow> bst_weak t"
  by (induction t) auto


lemma build_spec:
  "case build ks w of
     Inl e \<Rightarrow> (e = Exit \<or> e = NullDeref) \<and> \<not> allocs_ok w
   | Inr (n, bst', w') \<Rightarrow>
       (case bst' of
          None \<Rightarrow> False
        | Some b \<Rightarrow>
            size_ok (root b) \<and> mset (inorder (root b)) = mset ks \<and> sorted (inorder (root b)))
       \<and> (allocs_ok w \<longrightarrow> allocs_ok w')"
proof (cases "fst (malloc w)")
  case False
  with malloc_fails [OF False] show ?thesis
    by (simp add: build_def initRBST_def split_beta)
next
  case True
  have eq: "build ks w = insert_keys (Some (RBST NULL)) ks 0 (snd (malloc w))"
    using True by (simp add: build_def initRBST_def split_beta)
  have "keys_result NULL ks (snd (malloc w)) (build ks w)"
    unfolding eq by (rule insert_keys_spec) simp
  then show ?thesis
    using allocs_ok_malloc [of w] sorted_foldl_ins [of "[]" ks]
    by (auto simp: keys_result_def split: sum.splits option.splits)
qed

lemma build_ok:
  assumes "allocs_ok w"
  shows "\<exists>n t w'. build ks w = Inr (n, Some (RBST t), w') \<and> size_ok t
           \<and> mset (inorder t) = mset ks \<and> sorted (inorder t) \<and> allocs_ok w'"
proof -
  note B = build_spec [where ks = ks and w = w]
  from B assms obtain n bst' w' where res: "build ks w = Inr (n, bst', w')"
    by (cases "build ks w") auto
  from B [unfolded res] obtain b where "bst' = Some b" by (cases bst') auto
  then obtain t where bst': "bst' = Some (RBST t)" by (cases b) auto
  from B [unfolded res bst'] assms show ?thesis by (simp add: res bst')
qed

lemma count_nodes_inorder: "count_nodes t = length (inorder t)"
  by (induction t) simp_all

lemma sorted_dropWhile_greater:
  fixes k :: int
  assumes "sorted xs" "z \<in> set (dropWhile (\<lambda>x. \<not> k < x) xs)"
  shows "k < z"
  using assms
proof (induction xs)
  case Nil
  then show ?case by simp
next
  case (Cons x xs)
  show ?case
  proof (cases "k < x")
    case True
    with Cons.prems have "z = x \<or> z \<in> set xs" by simp
    moreover have "\<forall>y\<in>set xs. x \<le> y" using Cons.prems(1) by simp
    ultimately show ?thesis using True by force
  next
    case False
    with Cons.prems have "z \<in> set (dropWhile (\<lambda>x. \<not> k < x) xs)" "sorted xs" by simp_all
    then show ?thesis using Cons.IH by simp
  qed
qed



section \<open>The claims\<close>

text \<open>
  \<^bold>\<open>C1.\<close> For any sequence of insert calls starting from an empty tree, an in-order
  traversal of the resulting tree yields exactly the multiset of the inserted keys, in
  non-decreasing order. The run is \<open>build\<close>: \<^verbatim>\<open>initRBST\<close> followed by one
  \<^verbatim>\<open>insertRBST\<close> per key, in an environment where every \<^verbatim>\<open>malloc\<close> succeeds; whatever
  \<^verbatim>\<open>rand()\<close> and \<^verbatim>\<open>drand48()\<close> return, the run completes and the in-order key list of
  the tree is the sorted list of the keys.
\<close>

theorem inorder_sorted_keys:
  assumes "allocs_ok w"
  shows "\<exists>n t w'. build ks w = Inr (n, Some (RBST t), w')
           \<and> sorted (inorder t) \<and> mset (inorder t) = mset ks \<and> inorder t = sort ks"
proof -
  from build_ok [OF assms, of ks] obtain n t w' where
    res: "build ks w = Inr (n, Some (RBST t), w')" and so: "sorted (inorder t)"
    and ms: "mset (inorder t) = mset ks"
    by blast
  have "sort ks = inorder t" using ms so by (rule properties_for_sort)
  with res so ms show ?thesis by simp
qed

theorem inorder_sorted_keys_witness:
  "allocs_ok (mk_world [] [] []) \<and>
   (\<exists>n t w'. build [5, 3, 8, 1, 4, 7, 9] (mk_world [] [] []) = Inr (n, Some (RBST t), w')
      \<and> inorder t = [1, 3, 4, 5, 7, 8, 9])"
proof -
  have h: "allocs_ok (mk_world [] [] [])" by simp
  from inorder_sorted_keys [OF h, of "[5, 3, 8, 1, 4, 7, 9]"] obtain n t w' where
    "build [5, 3, 8, 1, 4, 7, 9] (mk_world [] [] []) = Inr (n, Some (RBST t), w')"
    "inorder t = sort [5, 3, 8, 1, 4, 7, 9]"
    by blast
  then have "build [5, 3, 8, 1, 4, 7, 9] (mk_world [] [] []) = Inr (n, Some (RBST t), w')
      \<and> inorder t = [1, 3, 4, 5, 7, 8, 9]"
    by simp
  with h show ?thesis by blast
qed




text \<open>
  \<^bold>\<open>C3.\<close> After every completed insert, on any tree and whether or not it rebuilds,
  every node satisfies \<open>size = 1 + size(left) + size(right)\<close>, an absent child counting 0.
  For a tree with the invariant and any list of keys: the inserts complete when every
  \<^verbatim>\<open>malloc\<close> succeeds, and whenever they complete the tree has the invariant.
\<close>

theorem size_invariant_preserved:
  assumes "size_ok t"
  shows "(allocs_ok w \<longrightarrow>
            (\<exists>n t' w'. insert_keys (Some (RBST t)) ks nv w = Inr (n, Some (RBST t'), w')))
         \<and> (\<forall>n bst' w'. insert_keys (Some (RBST t)) ks nv w = Inr (n, bst', w') \<longrightarrow>
               (\<exists>t'. bst' = Some (RBST t') \<and> size_ok t'))"
proof -
  note K = insert_keys_spec [OF assms, of ks w nv]
  show ?thesis
  proof (cases "insert_keys (Some (RBST t)) ks nv w")
    case (Inl e)
    with K show ?thesis by (simp add: keys_result_def)
  next
    case (Inr p)
    then obtain n bst' w' where res: "insert_keys (Some (RBST t)) ks nv w = Inr (n, bst', w')"
      by (cases p) auto
    from K [unfolded res] obtain b where "bst' = Some b"
      by (cases bst') (auto simp: keys_result_def)
    then obtain t' where bst': "bst' = Some (RBST t')" by (cases b) auto
    from K [unfolded res bst'] show ?thesis by (simp add: res bst' keys_result_def)
  qed
qed

theorem size_invariant_preserved_witness:
  "size_ok (TreeNode 5 2 (TreeNode 3 1 NULL NULL) NULL) \<and> allocs_ok (mk_world [] [] []) \<and>
   (\<exists>n t' w'. insert_keys (Some (RBST (TreeNode 5 2 (TreeNode 3 1 NULL NULL) NULL))) [8, 1] 0
                 (mk_world [] [] []) = Inr (n, Some (RBST t'), w') \<and> size_ok t')"
proof -
  have h: "size_ok (TreeNode 5 2 (TreeNode 3 1 NULL NULL) NULL)" by simp
  have a: "allocs_ok (mk_world [] [] [])" by simp
  note T = size_invariant_preserved [OF h, of "mk_world [] [] []" "[8, 1]" 0]
  from T a obtain n t' w' where res:
    "insert_keys (Some (RBST (TreeNode 5 2 (TreeNode 3 1 NULL NULL) NULL))) [8, 1] 0
       (mk_world [] [] []) = Inr (n, Some (RBST t'), w')"
    by blast
  with T have "size_ok t'" by blast
  with h a res show ?thesis by blast
qed

text \<open>
  \<^bold>\<open>C4.\<close> For a subtree of size \<open>s\<close> with the ordering invariant and any new key, the
  flatten step fills an array of exactly \<open>s + 1\<close> keys, in ascending order, holding the keys of
  the subtree and the new key; the new key stands right after all existing keys less than or
  equal to it, hence after every existing key equal to it (at the end when no key is
  greater). The call is the one \<^verbatim>\<open>reconstructRBST\<close> makes, from \<open>flat_init\<close>; the ordering
  invariant is taken in its weak form \<open>bst_weak\<close>, which the strict form implies
  (\<open>bst_strict_weak\<close>).
\<close>

theorem flatten_sorted_array:
  assumes ok: "size_ok (TreeNode ck csz l r)" and bst: "bst_weak (TreeNode ck csz l r)"
  shows "\<exists>s' w' out i.
           flattenRBST (TreeNode k a b c) (TreeNode ck csz l r) (csz + 1)
             (flat_init (csz + 1) nv) w = Inr (s', w')
           \<and> bstArr s' = Some (map Val out) \<and> int (length out) = csz + 1
           \<and> sorted out \<and> mset out = add_mset k (mset (inorder (TreeNode ck csz l r)))
           \<and> newNodeIndex s' = Some (int i) \<and> i < length out \<and> out ! i = k
           \<and> (\<forall>j<i. out ! j \<le> k) \<and> (\<forall>j. i < j \<and> j < length out \<longrightarrow> k < out ! j)"
proof -
  define xs where "xs = inorder (TreeNode ck csz l r)"
  define ys zs where "ys = takeWhile (\<lambda>x. \<not> k < x) xs" and "zs = dropWhile (\<lambda>x. \<not> k < x) xs"
  have so: "sorted xs" using bst by (simp only: bst_weak_sorted xs_def)
  have len: "csz = int (length xs)"
    using size_ok_length [OF ok] by (simp add: xs_def)
  have split: "ys @ zs = xs" by (simp add: ys_def zs_def)
  have lenyz: "length xs = length ys + length zs"
    unfolding ys_def zs_def by (rule length_takeWhile_dropWhile)
  have out: "ys @ k # zs = ins k xs" by (simp add: ins_def ys_def zs_def)
  have lo: "\<forall>j<length ys. (ys @ k # zs) ! j \<le> k"
  proof (intro allI impI)
    fix j assume j: "j < length ys"
    then have "ys ! j \<in> set ys" by simp
    then have "\<not> k < ys ! j" unfolding ys_def by (auto dest: set_takeWhileD)
    with j show "(ys @ k # zs) ! j \<le> k" by (simp add: nth_append)
  qed
  have hi: "\<forall>j. length ys < j \<and> j < length (ys @ k # zs) \<longrightarrow> k < (ys @ k # zs) ! j"
  proof (intro allI impI)
    fix j assume j: "length ys < j \<and> j < length (ys @ k # zs)"
    define m where "m = j - Suc (length ys)"
    from j have m: "j = length ys + Suc m" "m < length zs"
      by (auto simp: m_def)
    then have "(ys @ k # zs) ! j = zs ! m" by (simp add: nth_append)
    moreover have "zs ! m \<in> set zs" using m by simp
    then have "k < zs ! m" unfolding zs_def by (rule sorted_dropWhile_greater [OF so])
    ultimately show "k < (ys @ k # zs) ! j" by simp
  qed
  define s' where "s' = \<lparr>bstArr = Some (map Val (ys @ k # zs)), curIndex = csz + 1,
           newNodeIndex = Some (int (length ys)), isAdded = (zs \<noteq> []),
           nodesVisited = nv + csz, writes = map int [0..<nat (csz + 1)]\<rparr>"
  have F: "flattenRBST (TreeNode k a b c) (TreeNode ck csz l r) (csz + 1)
             (flat_init (csz + 1) nv) w
           = Inr (s', w\<lparr>freed := freed w @ postorder (TreeNode ck csz l r)\<rparr>)"
    unfolding s'_def ys_def zs_def xs_def by (rule flatten_init [OF ok])
  have 1: "bstArr s' = Some (map Val (ys @ k # zs))" by (simp add: s'_def)
  have 2: "int (length (ys @ k # zs)) = csz + 1" using len lenyz by simp
  have 3: "sorted (ys @ k # zs)" unfolding out using so by (rule sorted_ins)
  have 4: "mset (ys @ k # zs) = add_mset k (mset (inorder (TreeNode ck csz l r)))"
    unfolding out xs_def by (rule mset_ins)
  have 5: "newNodeIndex s' = Some (int (length ys))" by (simp add: s'_def)
  have 6: "length ys < length (ys @ k # zs)" by simp
  have 7: "(ys @ k # zs) ! length ys = k" by simp
  show ?thesis
    by (intro exI conjI) (rule F 1 2 3 4 5 6 7 lo hi)+
qed

theorem flatten_sorted_array_witness:
  "size_ok (TreeNode 3 2 NULL (TreeNode 3 1 NULL NULL))
   \<and> bst_weak (TreeNode 3 2 NULL (TreeNode 3 1 NULL NULL))
   \<and> (\<exists>s' w' out i.
         flattenRBST (TreeNode 3 1 NULL NULL) (TreeNode 3 2 NULL (TreeNode 3 1 NULL NULL)) (2 + 1)
           (flat_init (2 + 1) 0) (mk_world [] [] []) = Inr (s', w')
         \<and> bstArr s' = Some (map Val out) \<and> int (length out) = 2 + 1
         \<and> sorted out
         \<and> mset out = add_mset 3 (mset (inorder (TreeNode 3 2 NULL (TreeNode 3 1 NULL NULL))))
         \<and> newNodeIndex s' = Some (int i) \<and> i < length out \<and> out ! i = 3)"
proof -
  have h1: "size_ok (TreeNode 3 2 NULL (TreeNode 3 1 NULL NULL))" by simp
  have h2: "bst_weak (TreeNode 3 2 NULL (TreeNode 3 1 NULL NULL))" by simp
  from flatten_sorted_array [OF h1 h2, of 3 1 NULL NULL 0 "mk_world [] [] []"]
  obtain s' w' out i where
    "flattenRBST (TreeNode 3 1 NULL NULL) (TreeNode 3 2 NULL (TreeNode 3 1 NULL NULL)) (2 + 1)
       (flat_init (2 + 1) 0) (mk_world [] [] []) = Inr (s', w')"
    "bstArr s' = Some (map Val out)" "int (length out) = 2 + 1" "sorted out"
    "mset out = add_mset 3 (mset (inorder (TreeNode 3 2 NULL (TreeNode 3 1 NULL NULL))))"
    "newNodeIndex s' = Some (int i)" "i < length out" "out ! i = 3"
    by blast
  with h1 h2 show ?thesis by blast
qed



text \<open>
  \<^bold>\<open>C6.\<close> After \<open>n\<close> keys are inserted into a fresh tree, the tree has exactly \<open>n\<close>
  nodes; \<^verbatim>\<open>freeRBST\<close> returns \<open>n\<close> and hands every node to \<^verbatim>\<open>free\<close> exactly once (the
  log grows by the post-order list of the nodes); on an empty tree it frees nothing and
  returns 0.
\<close>

theorem teardown_counts_nodes:
  assumes "allocs_ok w"
  shows "(\<exists>n t w'. build ks w = Inr (n, Some (RBST t), w')
            \<and> count_nodes t = length ks
            \<and> freeRBST (Some (RBST t)) w'
                = Inr (int (length ks), w'\<lparr>freed := freed w' @ postorder t\<rparr>)
            \<and> length (postorder t) = length ks \<and> mset (postorder t) = mset ks)
         \<and> freeRBST (Some (RBST NULL)) w = Inr (0, w)"
proof
  from build_ok [OF assms, of ks] obtain n t w' where
    res: "build ks w = Inr (n, Some (RBST t), w')" and ms: "mset (inorder t) = mset ks"
    by blast
  have len: "length (inorder t) = length ks"
    using ms by (rule mset_eq_length)
  have "freeRBST (Some (RBST t)) w'
          = Inr (int (length ks), w'\<lparr>freed := freed w' @ postorder t\<rparr>)"
    by (simp add: freeRBST_def freeRBSTHelper_eq len)
  with res len ms
  show "\<exists>n t w'. build ks w = Inr (n, Some (RBST t), w')
            \<and> count_nodes t = length ks
            \<and> freeRBST (Some (RBST t)) w'
                = Inr (int (length ks), w'\<lparr>freed := freed w' @ postorder t\<rparr>)
            \<and> length (postorder t) = length ks \<and> mset (postorder t) = mset ks"
    by (auto simp: count_nodes_inorder length_postorder mset_postorder)
next
  show "freeRBST (Some (RBST NULL)) w = Inr (0, w)"
    by (simp add: freeRBST_def)
qed

theorem teardown_counts_nodes_witness:
  "allocs_ok (mk_world [] [] [])
   \<and> (\<exists>n t w'. build [5, 3, 8, 1, 4, 7, 9] (mk_world [] [] []) = Inr (n, Some (RBST t), w')
         \<and> count_nodes t = 7
         \<and> freeRBST (Some (RBST t)) w' = Inr (7, w'\<lparr>freed := freed w' @ postorder t\<rparr>)
         \<and> length (postorder t) = 7)"
proof -
  have h: "allocs_ok (mk_world [] [] [])" by simp
  from teardown_counts_nodes [OF h, of "[5, 3, 8, 1, 4, 7, 9]"]
  obtain n t w' where
    "build [5, 3, 8, 1, 4, 7, 9] (mk_world [] [] []) = Inr (n, Some (RBST t), w')"
    "count_nodes t = length [5, 3, 8, 1, 4, 7, 9 :: int]"
    "freeRBST (Some (RBST t)) w'
       = Inr (int (length [5, 3, 8, 1, 4, 7, 9 :: int]), w'\<lparr>freed := freed w' @ postorder t\<rparr>)"
    "length (postorder t) = length [5, 3, 8, 1, 4, 7, 9 :: int]"
    by blast
  then have "build [5, 3, 8, 1, 4, 7, 9] (mk_world [] [] []) = Inr (n, Some (RBST t), w')
         \<and> count_nodes t = 7
         \<and> freeRBST (Some (RBST t)) w' = Inr (7, w'\<lparr>freed := freed w' @ postorder t\<rparr>)
         \<and> length (postorder t) = 7"
    by simp
  with h show ?thesis by blast
qed

text \<open>
  \<^bold>\<open>C7\<close> says that the counter returned by an insert is the number of nodes descended
  through or rebuilt. The code also counts the node it creates for the new key, and counts
  the nodes of a rebuilt subtree twice, once when flattening and once when rebuilding: an
  insert into an empty tree returns 1 where nothing is descended through or rebuilt, and an
  insert that rebuilds a one-node tree returns 5 where one node is descended through and two
  are rebuilt.
\<close>

theorem work_counter_counterexample:
  "result_count (insertRBST (Some (RBST NULL)) 42 (mk_world [] [1 / 4] [])) = Some 1
   \<and> descended NULL 42 (drand48_vals (mk_world [] [1 / 4] []))
       + rebuilt NULL 42 (drand48_vals (mk_world [] [1 / 4] [])) = 0
   \<and> result_count (insertRBST (Some (RBST (TreeNode 1 1 NULL NULL))) 2 (mk_world [] [1 / 4] []))
       = Some 5
   \<and> descended (TreeNode 1 1 NULL NULL) 2 (drand48_vals (mk_world [] [1 / 4] []))
       + rebuilt (TreeNode 1 1 NULL NULL) 2 (drand48_vals (mk_world [] [1 / 4] [])) = 3"
  by (simp add: result_count_def insertRBST_def createNode_def
        malloc_def drand48_def rand_def mk_world_def stream_of_def rebuild_here_def
        reconstructRBST_def put_new_def store_def array_read_def makeRBST.simps Let_def)

text \<open>
  \<^bold>\<open>C7, as amended.\<close> Every insert call returns 1, for the node created for the new key,
  plus the number of nodes descended through, plus, when a rebuild is triggered at a subtree
  of \<open>s\<close> nodes, \<open>s\<close> for the nodes flattened and \<open>s + 1\<close> for the nodes rebuilt; an insert
  into an empty tree returns 1.
\<close>

theorem work_counter:
  assumes ok: "size_ok t" and al: "allocs_ok w"
  shows "\<exists>n bst' w'. insertRBST (Some (RBST t)) k w = Inr (n, bst', w')
           \<and> n = 1 + descended t k (drand48_vals w) + flattened t k (drand48_vals w)
                   + rebuilt t k (drand48_vals w)"
proof -
  note S = insertRBST_spec [OF ok, of k w]
  from S al obtain n bst' w' where res: "insertRBST (Some (RBST t)) k w = Inr (n, bst', w')"
    by (cases "insertRBST (Some (RBST t)) k w") (auto simp: ins_result_def)
  from S [unfolded res] show ?thesis
    by (simp add: res ins_result_def)
qed

theorem work_counter_witness:
  "size_ok (TreeNode 5 2 (TreeNode 3 1 NULL NULL) NULL) \<and> allocs_ok (mk_world [] [9 / 10] [])
   \<and> (\<exists>n bst' w'. insertRBST (Some (RBST (TreeNode 5 2 (TreeNode 3 1 NULL NULL) NULL))) 4
                      (mk_world [] [9 / 10] []) = Inr (n, bst', w')
         \<and> n = 6)"
proof -
  have h1: "size_ok (TreeNode 5 2 (TreeNode 3 1 NULL NULL) NULL)" by simp
  have h2: "allocs_ok (mk_world [] [9 / 10] [])" by simp
  have c: "1 + descended (TreeNode 5 2 (TreeNode 3 1 NULL NULL) NULL) 4
                 (drand48_vals (mk_world [] [9 / 10] []))
             + flattened (TreeNode 5 2 (TreeNode 3 1 NULL NULL) NULL) 4
                 (drand48_vals (mk_world [] [9 / 10] []))
             + rebuilt (TreeNode 5 2 (TreeNode 3 1 NULL NULL) NULL) 4
                 (drand48_vals (mk_world [] [9 / 10] [])) = 6"
    by (simp add: mk_world_def stream_of_def rebuild_here_def)
  from work_counter [OF h1 h2, of 4] obtain n bst' w' where
    "insertRBST (Some (RBST (TreeNode 5 2 (TreeNode 3 1 NULL NULL) NULL))) 4
       (mk_world [] [9 / 10] []) = Inr (n, bst', w')"
    "n = 1 + descended (TreeNode 5 2 (TreeNode 3 1 NULL NULL) NULL) 4
                 (drand48_vals (mk_world [] [9 / 10] []))
             + flattened (TreeNode 5 2 (TreeNode 3 1 NULL NULL) NULL) 4
                 (drand48_vals (mk_world [] [9 / 10] []))
             + rebuilt (TreeNode 5 2 (TreeNode 3 1 NULL NULL) NULL) 4
                 (drand48_vals (mk_world [] [9 / 10] []))"
    by blast
  with c h1 h2 show ?thesis by auto
qed

text \<open>
  \<^bold>\<open>C9.\<close> Allocation failure in node creation is said to be the only failure, and
  fatal by \<^verbatim>\<open>exit\<close>. \<^verbatim>\<open>createNode\<close> does test its \<^verbatim>\<open>malloc\<close>, but \<^verbatim>\<open>reconstructRBST\<close>
  does not test the one for the key array, and \<^verbatim>\<open>initRBST\<close> stores through the handle
  before the test in \<^verbatim>\<open>testInsertRBST\<close> is reached. With the second \<^verbatim>\<open>malloc\<close> of an
  insert failing (the array, in a rebuild at the root of a one-node tree), the run stores
  through a null pointer; so does \<^verbatim>\<open>initRBST\<close> when its \<^verbatim>\<open>malloc\<close> fails. The third
  equation is the tested path: the failure of the first \<^verbatim>\<open>malloc\<close> ends in \<^verbatim>\<open>exit\<close>.
\<close>

theorem unchecked_malloc_null_deref:
  "insertRBST (Some (RBST (TreeNode 1 1 NULL NULL))) 2 (mk_world [] [1 / 4] [True, False])
     = Inl NullDeref
   \<and> initRBST (mk_world [] [] [False]) = Inl NullDeref
   \<and> insertRBST (Some (RBST (TreeNode 1 1 NULL NULL))) 2 (mk_world [] [1 / 4] [False])
       = Inl Exit"
  by (simp add: insertRBST_def initRBST_def createNode_def
        malloc_def drand48_def mk_world_def stream_of_def rebuild_here_def
        reconstructRBST_def put_new_def store_def)

text \<open>
  \<^bold>\<open>C10.\<close> In a flatten and rebuild of a subtree of size \<open>s\<close> whose size fields satisfy
  the size invariant: \<^verbatim>\<open>flattenRBST\<close> stores at the indices \<open>0, 1, \<dots>, s\<close>, each once and
  in this order, before \<^verbatim>\<open>makeRBST\<close> reads anything; every cell holds a key afterwards;
  the index of the new key has been assigned and lies in \<open>[0, s]\<close>; and no access of the
  whole step is out of bounds or reads an unwritten cell, whatever the environment.
\<close>

theorem rebuild_array_safety:
  assumes ok: "size_ok (TreeNode ck csz l r)"
  shows "(\<exists>s' w' out i.
            flattenRBST (TreeNode k a b c) (TreeNode ck csz l r) (csz + 1)
              (flat_init (csz + 1) nv) w = Inr (s', w')
            \<and> writes s' = map int [0..<nat (csz + 1)]
            \<and> bstArr s' = Some (map Val out) \<and> int (length out) = csz + 1
            \<and> newNodeIndex s' = Some i \<and> 0 \<le> i \<and> i \<le> csz)
         \<and> reconstructRBST (TreeNode ck csz l r) (TreeNode k a b c) nv w \<noteq> Inl OutOfBounds
         \<and> reconstructRBST (TreeNode ck csz l r) (TreeNode k a b c) nv w \<noteq> Inl UninitRead"
proof (intro conjI)
  define xs where "xs = inorder (TreeNode ck csz l r)"
  define ys zs where "ys = takeWhile (\<lambda>x. \<not> k < x) xs" and "zs = dropWhile (\<lambda>x. \<not> k < x) xs"
  have len: "csz = int (length xs)"
    using size_ok_length [OF ok] by (simp add: xs_def)
  have lenyz: "length xs = length ys + length zs"
    unfolding ys_def zs_def by (rule length_takeWhile_dropWhile)
  define s' where "s' = \<lparr>bstArr = Some (map Val (ys @ k # zs)), curIndex = csz + 1,
           newNodeIndex = Some (int (length ys)), isAdded = (zs \<noteq> []),
           nodesVisited = nv + csz, writes = map int [0..<nat (csz + 1)]\<rparr>"
  have F: "flattenRBST (TreeNode k a b c) (TreeNode ck csz l r) (csz + 1)
             (flat_init (csz + 1) nv) w
           = Inr (s', w\<lparr>freed := freed w @ postorder (TreeNode ck csz l r)\<rparr>)"
    unfolding s'_def ys_def zs_def xs_def by (rule flatten_init [OF ok])
  have 1: "writes s' = map int [0..<nat (csz + 1)]" by (simp add: s'_def)
  have 2: "bstArr s' = Some (map Val (ys @ k # zs))" by (simp add: s'_def)
  have 3: "int (length (ys @ k # zs)) = csz + 1" using len lenyz by simp
  have 4: "newNodeIndex s' = Some (int (length ys))" by (simp add: s'_def)
  have 5: "0 \<le> int (length ys)" by simp
  have 6: "int (length ys) \<le> csz" using len lenyz by simp
  show "\<exists>s' w' out i.
            flattenRBST (TreeNode k a b c) (TreeNode ck csz l r) (csz + 1)
              (flat_init (csz + 1) nv) w = Inr (s', w')
            \<and> writes s' = map int [0..<nat (csz + 1)]
            \<and> bstArr s' = Some (map Val out) \<and> int (length out) = csz + 1
            \<and> newNodeIndex s' = Some i \<and> 0 \<le> i \<and> i \<le> csz"
    by (intro exI conjI) (rule F 1 2 3 4 5 6)+
next
  note R = reconstructRBST_spec [OF ok, where k = k and a = a and b = b and c = c
      and nv = nv and w = w]
  show "reconstructRBST (TreeNode ck csz l r) (TreeNode k a b c) nv w \<noteq> Inl OutOfBounds"
    using R by (auto split: if_splits)
  show "reconstructRBST (TreeNode ck csz l r) (TreeNode k a b c) nv w \<noteq> Inl UninitRead"
    using R by (auto split: if_splits)
qed

theorem rebuild_array_safety_witness:
  "size_ok (TreeNode 5 2 (TreeNode 3 1 NULL NULL) NULL)
   \<and> (\<exists>s' w' out i.
         flattenRBST (TreeNode 4 1 NULL NULL) (TreeNode 5 2 (TreeNode 3 1 NULL NULL) NULL) (2 + 1)
           (flat_init (2 + 1) 0) (mk_world [] [] []) = Inr (s', w')
         \<and> writes s' = map int [0..<nat (2 + 1)]
         \<and> bstArr s' = Some (map Val out) \<and> int (length out) = 2 + 1
         \<and> newNodeIndex s' = Some i \<and> 0 \<le> i \<and> i \<le> 2)
   \<and> reconstructRBST (TreeNode 5 2 (TreeNode 3 1 NULL NULL) NULL) (TreeNode 4 1 NULL NULL) 0
        (mk_world [] [] []) \<noteq> Inl OutOfBounds
   \<and> reconstructRBST (TreeNode 5 2 (TreeNode 3 1 NULL NULL) NULL) (TreeNode 4 1 NULL NULL) 0
        (mk_world [] [] []) \<noteq> Inl UninitRead"
proof -
  have h: "size_ok (TreeNode 5 2 (TreeNode 3 1 NULL NULL) NULL)" by simp
  show ?thesis
    by (rule conjI [OF h rebuild_array_safety [OF h]])
qed

end
